theory Spec2Isabelle
  imports Main
begin

section \<open>The Latin square solver: data model\<close>

text \<open>
  The solver of \<^verbatim>\<open>src/LatinSquareSolver\<close> (node.c, stack.c, algorithm.c, latinsolver.c).
  C \<^verbatim>\<open>int\<close> values are modelled as \<^typ>\<open>int\<close>: the only arithmetic the solver performs on
  them is \<^verbatim>\<open>abs\<close>, comparison, \<^verbatim>\<open>+ 1\<close> on loop indices bounded by the grid size and
  \<^verbatim>\<open>- 1\<close> on a cell value, and the file reader admits cell values in \<open>[-N, N]\<close> only.
  Arrays are lists; an index \<open>i\<close> of type \<^typ>\<open>int\<close> reads position \<open>nat i\<close>.
  Memory allocation is assumed to succeed, and the \<^verbatim>\<open>NULL\<close> checks on arguments are
  not modelled, with one exception: a dereference of a \<^verbatim>\<open>NULL\<close> \<^verbatim>\<open>stack->top\<close> and an
  out-of-bounds write to \<^verbatim>\<open>moves\<close> are faults, the value \<open>None\<close>.
\<close>

definition EXIT_SUCCESS :: int where
  "EXIT_SUCCESS = 0"

definition EXIT_FAILURE :: int where
  "EXIT_FAILURE = 1"

text \<open>
  \<^verbatim>\<open>struct Node\<close> of node.h. The \<^verbatim>\<open>next\<close> pointer is the tail of the list that
  models the chain of frames in a stack.
\<close>

record Node =
  square :: "int list list"
  size_n :: int
  row :: int
  col :: int
  moves :: "int list"

text \<open>\<^verbatim>\<open>node->square[i][j]\<close>\<close>

definition cell :: "Node \<Rightarrow> int \<Rightarrow> int \<Rightarrow> int" where
  "cell node i j = square node ! nat i ! nat j"

text \<open>\<^verbatim>\<open>struct Stack\<close> of stack.h: \<open>top_s\<close> is the linked chain from \<^verbatim>\<open>top\<close>, the head
  of the list being the top frame and \<open>[]\<close> the \<^verbatim>\<open>NULL\<close> pointer.\<close>

record Stack =
  top_s :: "Node list"
  size_s :: int

section \<open>node.c\<close>

text \<open>\<^verbatim>\<open>initNode(&newNode, NULL, size)\<close>: an all-empty grid, cursor \<open>(0, 0)\<close>, every move valid.\<close>

definition initNode :: "int \<Rightarrow> Node" where
  "initNode n =
     \<lparr>square = replicate (nat n) (replicate (nat n) 0), size_n = n, row = 0, col = 0,
      moves = replicate (nat n) 1\<rparr>"

text \<open>The loop \<^verbatim>\<open>for (i = 0; i < node->size; i++) node->moves[i] = 1;\<close> of \<^verbatim>\<open>updateNode\<close>.\<close>

function resetMoves :: "int list \<Rightarrow> int \<Rightarrow> int \<Rightarrow> int list" where
  "resetMoves ms n i = (if i < n then resetMoves (ms[nat i := 1]) n (i + 1) else ms)"
  by pat_completeness auto
termination
  by (relation "measure (\<lambda>(ms, n, i). nat (n - i))") auto

declare resetMoves.simps [simp del]

definition updateNode :: "Node \<Rightarrow> int \<Rightarrow> int \<Rightarrow> int \<Rightarrow> Node" where
  "updateNode node r c num =
     node\<lparr>square := (square node)[nat r := (square node ! nat r)[nat c := num]],
          row := r, col := c,
          moves := resetMoves (moves node) (size_n node) 0\<rparr>"

text \<open>\<^verbatim>\<open>cloneNode\<close>: fresh storage, \<open>size \<times> size\<close> cells and \<open>size\<close> moves copied one by one.\<close>

definition cloneNode :: "Node \<Rightarrow> Node" where
  "cloneNode node =
     \<lparr>square = map (\<lambda>i. map (\<lambda>j. square node ! i ! j) [0..<nat (size_n node)])
                  [0..<nat (size_n node)],
      size_n = size_n node, row = row node, col = col node,
      moves = map (\<lambda>i. moves node ! i) [0..<nat (size_n node)]\<rparr>"

section \<open>stack.c\<close>

definition initStack :: Stack where
  "initStack = \<lparr>top_s = [], size_s = 0\<rparr>"

definition isEmpty :: "Stack \<Rightarrow> bool" where
  "isEmpty stack = (size_s stack = 0)"

text \<open>\<^verbatim>\<open>push\<close> stores a clone of its argument; both branches of the test on
  \<^verbatim>\<open>stack->top == NULL\<close> build the same chain.\<close>

definition push :: "Stack \<Rightarrow> Node \<Rightarrow> int \<times> Stack" where
  "push stack newNode =
     (let pushedNode = cloneNode newNode
      in (EXIT_SUCCESS, stack\<lparr>top_s := pushedNode # top_s stack, size_s := size_s stack + 1\<rparr>))"

text \<open>
  \<^verbatim>\<open>pop(stack, retNode)\<close>. The result is the return code, the stack afterwards and what was
  written through \<^verbatim>\<open>retNode\<close> (\<open>None\<close>: nothing was written). With a non-zero \<^verbatim>\<open>size\<close> and
  a \<^verbatim>\<open>NULL\<close> \<^verbatim>\<open>top\<close> the C code dereferences \<^verbatim>\<open>NULL\<close>: the fault \<open>None\<close>.
\<close>

definition pop :: "Stack \<Rightarrow> (int \<times> Stack \<times> Node option) option" where
  "pop stack =
     (if isEmpty stack then Some (EXIT_FAILURE, stack, None)
      else (case top_s stack of
              [] \<Rightarrow> None
            | temp # rest \<Rightarrow>
                Some (EXIT_SUCCESS,
                      stack\<lparr>top_s := rest, size_s := size_s stack - 1\<rparr>,
                      Some \<lparr>square = map (\<lambda>i. map (\<lambda>j. square temp ! i ! j) [0..<nat (size_n temp)])
                                        [0..<nat (size_n temp)],
                            size_n = size_n temp, row = row temp, col = col temp,
                            moves = map (\<lambda>i. moves temp ! i) [0..<nat (size_n temp)]\<rparr>)))"

text \<open>\<^verbatim>\<open>freeStack\<close> releases every frame and the stack itself: afterwards there is no
  stack, the value \<open>None\<close>.\<close>

definition freeStack :: "Stack \<Rightarrow> Stack option" where
  "freeStack stack = None"

section \<open>algorithm.c\<close>

text \<open>The two loops of \<^verbatim>\<open>checkDuplicates\<close>, from index \<open>k\<close> on.\<close>

function dupInRow :: "Node \<Rightarrow> int \<Rightarrow> int \<Rightarrow> int \<Rightarrow> int \<Rightarrow> bool" where
  "dupInRow node num r c k =
     (if k < size_n node
      then (if k \<noteq> c \<and> \<bar>cell node r k\<bar> = num then True else dupInRow node num r c (k + 1))
      else False)"
  by pat_completeness auto
termination
  by (relation "measure (\<lambda>(node, num, r, c, k). nat (size_n node - k))") auto

function dupInCol :: "Node \<Rightarrow> int \<Rightarrow> int \<Rightarrow> int \<Rightarrow> int \<Rightarrow> bool" where
  "dupInCol node num r c k =
     (if k < size_n node
      then (if k \<noteq> r \<and> \<bar>cell node k c\<bar> = num then True else dupInCol node num r c (k + 1))
      else False)"
  by pat_completeness auto
termination
  by (relation "measure (\<lambda>(node, num, r, c, k). nat (size_n node - k))") auto

declare dupInRow.simps [simp del] dupInCol.simps [simp del]

definition checkDuplicates :: "Node \<Rightarrow> int \<Rightarrow> int \<Rightarrow> int \<Rightarrow> bool" where
  "checkDuplicates node num r c =
     (if dupInRow node num r c 0 then True
      else if dupInCol node num r c 0 then True
      else False)"

text \<open>The inner loop of \<^verbatim>\<open>findNextEmptyCell\<close>: the first empty column of row \<open>i\<close> from
  column \<open>j\<close> on.\<close>

function scanRow :: "Node \<Rightarrow> int \<Rightarrow> int \<Rightarrow> int option" where
  "scanRow node i j =
     (if j < size_n node
      then (if cell node i j = 0 then Some j else scanRow node i (j + 1))
      else None)"
  by pat_completeness auto
termination
  by (relation "measure (\<lambda>(node, i, j). nat (size_n node - j))") auto

text \<open>The outer loop; the result is the return code and the values stored through
  \<^verbatim>\<open>row\<close> and \<^verbatim>\<open>col\<close>.\<close>

function scanRows :: "Node \<Rightarrow> int \<Rightarrow> int \<Rightarrow> int \<times> int \<times> int" where
  "scanRows node i lastCol =
     (if i < size_n node
      then (case scanRow node i lastCol of
              Some j \<Rightarrow> (EXIT_SUCCESS, i, j)
            | None \<Rightarrow> scanRows node (i + 1) 0)
      else (EXIT_FAILURE, -1, -1))"
  by pat_completeness auto
termination
  by (relation "measure (\<lambda>(node, i, lastCol). nat (size_n node - i))") auto

declare scanRow.simps [simp del] scanRows.simps [simp del]

definition findNextEmptyCell :: "Node \<Rightarrow> int \<times> int \<times> int" where
  "findNextEmptyCell node = scanRows node (row node) (col node)"

text \<open>The local variables of \<^verbatim>\<open>solveLatinSquare\<close> that live across iterations
  (\<open>rowv\<close>, \<open>colv\<close> are the locals \<^verbatim>\<open>row\<close>, \<^verbatim>\<open>col\<close>).\<close>

record Solver =
  stack :: Stack
  newNode :: Node
  rowv :: int
  colv :: int
  pushCounter :: int
  popCounter :: int
  stepCounter :: int

text \<open>The loop \<^verbatim>\<open>for (i = 1; i <= size; i++)\<close> from \<open>i\<close> on: the flag \<^verbatim>\<open>pushed\<close>, the stack
  and \<^verbatim>\<open>newNode\<close> when the loop is left.\<close>

function tryValues :: "int \<Rightarrow> Stack \<Rightarrow> Node \<Rightarrow> int \<Rightarrow> int \<Rightarrow> int \<Rightarrow> bool \<times> Stack \<times> Node" where
  "tryValues n stk nn r c i =
     (if i \<le> n
      then (if moves nn ! nat (i - 1) = 1 \<and> \<not> checkDuplicates nn i r c
            then (let nn' = updateNode nn r c i
                  in (True, snd (push stk nn'), nn'))
            else tryValues n stk nn r c (i + 1))
      else (False, stk, nn))"
  by pat_completeness auto
termination
  by (relation "measure (\<lambda>(n, stk, nn, r, c, i). nat (n + 1 - i))") auto

declare tryValues.simps [simp del]

text \<open>What one iteration of the \<^verbatim>\<open>while\<close> loop ends in.\<close>

datatype iteration = Continue Solver | ReturnFalse Solver

text \<open>The last four statements of the loop body: clone the top, look for its next
  empty cell, count the step.\<close>

definition endOfIteration :: "Solver \<Rightarrow> iteration option" where
  "endOfIteration s =
     (case top_s (stack s) of
        [] \<Rightarrow> None
      | t # rest \<Rightarrow>
          (let nn = cloneNode t
           in (case findNextEmptyCell nn of
                 (st, r, c) \<Rightarrow>
                   Some (Continue (s\<lparr>newNode := nn, rowv := r, colv := c,
                                     stepCounter := stepCounter s + 1\<rparr>)))))"

definition loopBody :: "int \<Rightarrow> Solver \<Rightarrow> iteration option" where
  "loopBody n s =
     (case tryValues n (stack s) (newNode s) (rowv s) (colv s) 1 of
        (pushed, stack1, newNode1) \<Rightarrow>
          if pushed
          then endOfIteration (s\<lparr>stack := stack1, newNode := newNode1,
                                 pushCounter := pushCounter s + 1\<rparr>)
          else (case pop stack1 of
                  None \<Rightarrow> None
                | Some (st, stack2, retNode) \<Rightarrow>
                    if \<not> isEmpty stack2
                    then (case (retNode, top_s stack2) of
                            (Some rn, t # rest) \<Rightarrow>
                              (let indexToChange = cell rn (row rn) (col rn) - 1
                               in if 0 \<le> indexToChange \<and> nat indexToChange < length (moves t)
                                  then endOfIteration
                                         (s\<lparr>stack := stack2\<lparr>top_s :=
                                               t\<lparr>moves := (moves t)[nat indexToChange := 0]\<rparr> # rest\<rparr>,
                                            newNode := newNode1,
                                            popCounter := popCounter s + 1\<rparr>)
                                  else None)
                          | _ \<Rightarrow> None)
                    else Some (ReturnFalse (s\<lparr>stack := stack2, newNode := newNode1\<rparr>))))"

text \<open>The \<^verbatim>\<open>while (row != -1 && col != -1)\<close> loop, with one unit of fuel per iteration:
  \<open>Some (True, s)\<close> when the loop condition fails, \<open>Some (False, s)\<close> at
  \<^verbatim>\<open>return false\<close>, \<open>None\<close> on a fault or when the fuel runs out.\<close>

fun solveLoop :: "nat \<Rightarrow> int \<Rightarrow> Solver \<Rightarrow> (bool \<times> Solver) option" where
  "solveLoop 0 n s = (if rowv s \<noteq> -1 \<and> colv s \<noteq> -1 then None else Some (True, s))"
| "solveLoop (Suc fuel) n s =
     (if rowv s \<noteq> -1 \<and> colv s \<noteq> -1
      then (case loopBody n s of
              None \<Rightarrow> None
            | Some (ReturnFalse s') \<Rightarrow> Some (False, s')
            | Some (Continue s') \<Rightarrow> solveLoop fuel n s')
      else Some (True, s))"

text \<open>The state in which \<^verbatim>\<open>solveLatinSquare\<close> enters its loop.\<close>

definition solverEntry :: "Stack \<Rightarrow> (int \<times> Solver) option" where
  "solverEntry stk =
     (case top_s stk of
        [] \<Rightarrow> None
      | t # rest \<Rightarrow>
          (let nn = cloneNode t
           in (case findNextEmptyCell nn of
                 (st, r, c) \<Rightarrow>
                   Some (size_n t,
                         \<lparr>stack = stk, newNode = nn, rowv = r, colv = c,
                          pushCounter = 0, popCounter = 0, stepCounter = 1\<rparr>))))"

text \<open>What the caller has after \<^verbatim>\<open>solveLatinSquare\<close>: the returned flag and its stack
  pointer's target (\<open>None\<close> once \<^verbatim>\<open>freeStack\<close> has released it); the two counters are
  the printed statistics.\<close>

record SolveResult =
  ret :: bool
  stack_after :: "Stack option"
  pushNum :: int
  popNum :: int

definition solveLatinSquare :: "nat \<Rightarrow> Stack \<Rightarrow> SolveResult option" where
  "solveLatinSquare fuel stk =
     (case solverEntry stk of
        None \<Rightarrow> None
      | Some (n, s0) \<Rightarrow>
          (case solveLoop fuel n s0 of
             None \<Rightarrow> None
           | Some (solved, s) \<Rightarrow>
               if solved
               then Some \<lparr>ret = True, stack_after = freeStack (stack s),
                          pushNum = pushCounter s, popNum = popCounter s\<rparr>
               else Some \<lparr>ret = False, stack_after = Some (stack s),
                          pushNum = pushCounter s, popNum = popCounter s\<rparr>))"

section \<open>latinsolver.c\<close>

text \<open>
  \<^verbatim>\<open>readLatinNode\<close>, after the file has been parsed into a size and rows of numbers: the
  program exits (\<open>None\<close>) unless there are exactly \<open>size \<times> size\<close> values, each within
  \<open>[-size, size]\<close>; the node comes from \<^verbatim>\<open>initNode(&node, NULL, size)\<close>, whose allocations
  fail for a negative size. Printing is not modelled.
\<close>

definition readLatinNode :: "int \<Rightarrow> int list list \<Rightarrow> Node option" where
  "readLatinNode n grid =
     (if 0 \<le> n \<and> length grid = nat n \<and> (\<forall>rw \<in> set grid. length rw = nat n)
         \<and> (\<forall>rw \<in> set grid. \<forall>x \<in> set rw. - n \<le> x \<and> x \<le> n)
      then Some ((initNode n)\<lparr>square := grid\<rparr>)
      else None)"

text \<open>\<^verbatim>\<open>main\<close>: the stack handed to the solver holds one frame, a clone of the node read.\<close>

definition initialStack :: "Node \<Rightarrow> Stack" where
  "initialStack node = snd (push initStack node)"

section \<open>Vocabulary of the properties\<close>

text \<open>
  The definitions of this section are not code of the repository: they name the
  conditions under which the solver's loops are studied. A node is well formed for
  size \<open>n\<close> when its grid is \<open>n \<times> n\<close>, its \<^verbatim>\<open>moves\<close> array has \<open>n\<close> entries and its
  cursor is not negative, which is what \<^verbatim>\<open>initNode\<close>, \<^verbatim>\<open>cloneNode\<close> and \<^verbatim>\<open>updateNode\<close>
  produce.
\<close>

definition wf_node :: "int \<Rightarrow> Node \<Rightarrow> bool" where
  "wf_node n node \<longleftrightarrow>
     size_n node = n \<and> 0 \<le> n \<and> length (square node) = nat n
     \<and> (\<forall>rw \<in> set (square node). length rw = nat n)
     \<and> length (moves node) = nat n \<and> 0 \<le> row node \<and> 0 \<le> col node"

text \<open>Cell \<open>(i, j)\<close> lies in an \<open>n \<times> n\<close> grid.\<close>

definition inGrid :: "int \<Rightarrow> int \<Rightarrow> int \<Rightarrow> bool" where
  "inGrid n i j \<longleftrightarrow> 0 \<le> i \<and> i < n \<and> 0 \<le> j \<and> j < n"

text \<open>Cell \<open>(i, j)\<close> is visited by the scan that starts at \<open>(lr, lc)\<close> strictly before
  cell \<open>(r, c)\<close>.\<close>

definition scannedBefore :: "int \<Rightarrow> int \<Rightarrow> int \<Rightarrow> int \<Rightarrow> int \<Rightarrow> int \<Rightarrow> bool" where
  "scannedBefore lr lc r c i j \<longleftrightarrow>
     (i = lr \<and> lc \<le> j \<and> (i < r \<or> j < c)) \<or> (lr < i \<and> 0 \<le> j \<and> (i < r \<or> (i = r \<and> j < c)))"

text \<open>Every cell before \<open>(r, c)\<close> in row-major order is filled.\<close>

definition filledBefore :: "int \<Rightarrow> Node \<Rightarrow> int \<Rightarrow> int \<Rightarrow> bool" where
  "filledBefore n f r c \<longleftrightarrow>
     (\<forall>i j. inGrid n i j \<and> (i < r \<or> (i = r \<and> j < c)) \<longrightarrow> cell f i j \<noteq> 0)"

text \<open>No cell of the grid is empty.\<close>

definition complete :: "int \<Rightarrow> Node \<Rightarrow> bool" where
  "complete n f \<longleftrightarrow> (\<forall>i j. inGrid n i j \<longrightarrow> cell f i j \<noteq> 0)"

text \<open>Node \<open>f\<close> holds, in every cell that is not empty in \<open>n0\<close>, the value \<open>n0\<close> holds.\<close>

definition keepsFilled :: "int \<Rightarrow> Node \<Rightarrow> Node \<Rightarrow> bool" where
  "keepsFilled n n0 f \<longleftrightarrow> (\<forall>i j. inGrid n i j \<and> cell n0 i j \<noteq> 0 \<longrightarrow> cell f i j = cell n0 i j)"

text \<open>Every cell value lies in \<open>[-n, n]\<close>, the range the file reader admits.\<close>

definition inRange :: "int \<Rightarrow> Node \<Rightarrow> bool" where
  "inRange n f \<longleftrightarrow> (\<forall>i j. inGrid n i j \<longrightarrow> - n \<le> cell f i j \<and> cell f i j \<le> n)"

text \<open>No two cells of a row, and no two cells of a column, hold the same magnitude,
  empty cells apart.\<close>

definition noRepeat :: "int \<Rightarrow> Node \<Rightarrow> bool" where
  "noRepeat n f \<longleftrightarrow>
     (\<forall>i \<in> set [0..n - 1]. \<forall>j \<in> set [0..n - 1]. \<forall>k \<in> set [0..n - 1].
         j \<noteq> k \<and> cell f i j \<noteq> 0 \<longrightarrow> \<bar>cell f i j\<bar> \<noteq> \<bar>cell f i k\<bar>)
   \<and> (\<forall>j \<in> set [0..n - 1]. \<forall>i \<in> set [0..n - 1]. \<forall>k \<in> set [0..n - 1].
         i \<noteq> k \<and> cell f i j \<noteq> 0 \<longrightarrow> \<bar>cell f i j\<bar> \<noteq> \<bar>cell f k j\<bar>)"

text \<open>The number of empty cells of a grid.\<close>

definition emptyCells :: "int list list \<Rightarrow> nat" where
  "emptyCells sq = length (filter (\<lambda>x. x = 0) (concat sq))"

text \<open>
  What holds of every frame on the stack during a run on the input node \<open>n0\<close>, and how
  a frame relates to the frame below it: it was made by \<^verbatim>\<open>updateNode\<close> writing a value
  of \<open>1..n\<close> into its cursor cell, which is empty in the frame below.
\<close>

definition frame_ok :: "int \<Rightarrow> Node \<Rightarrow> Node \<Rightarrow> bool" where
  "frame_ok n n0 f \<longleftrightarrow>
     wf_node n f \<and> filledBefore n f (row f) (col f) \<and> keepsFilled n n0 f \<and> inRange n f
     \<and> (noRepeat n n0 \<longrightarrow> noRepeat n f)"

definition link :: "int \<Rightarrow> Node \<Rightarrow> Node \<Rightarrow> bool" where
  "link n a b \<longleftrightarrow>
     inGrid n (row a) (col a) \<and> 1 \<le> cell a (row a) (col a) \<and> cell a (row a) (col a) \<le> n
     \<and> cell b (row a) (col a) = 0
     \<and> (\<forall>i j. inGrid n i j \<and> (i \<noteq> row a \<or> j \<noteq> col a) \<longrightarrow> cell a i j = cell b i j)
     \<and> emptyCells (square a) + 1 = emptyCells (square b)
     \<and> moves b ! nat (cell a (row a) (col a) - 1) = 1"

fun chain :: "int \<Rightarrow> Node list \<Rightarrow> bool" where
  "chain n (a # b # fs) = (link n a b \<and> chain n (b # fs))"
| "chain n fs = True"

text \<open>The invariant of the \<^verbatim>\<open>while\<close> loop of \<^verbatim>\<open>solveLatinSquare\<close>, at the loop head.\<close>

definition solver_inv :: "int \<Rightarrow> Node \<Rightarrow> Solver \<Rightarrow> bool" where
  "solver_inv n n0 s \<longleftrightarrow>
     top_s (stack s) \<noteq> [] \<and> size_s (stack s) = int (length (top_s (stack s)))
     \<and> (\<forall>f \<in> set (top_s (stack s)). frame_ok n n0 f)
     \<and> chain n (top_s (stack s))
     \<and> square (last (top_s (stack s))) = square n0
     \<and> newNode s = hd (top_s (stack s))
     \<and> (\<exists>st. findNextEmptyCell (newNode s) = (st, rowv s, colv s))
     \<and> pushCounter s - popCounter s + 1 = int (length (top_s (stack s)))
     \<and> pushCounter s + popCounter s + 1 = stepCounter s"

text \<open>The state at the loop head after exactly \<open>k\<close> further full iterations
  (\<open>None\<close> when the loop ends, returns or faults before that).\<close>

fun runSteps :: "nat \<Rightarrow> int \<Rightarrow> Solver \<Rightarrow> Solver option" where
  "runSteps 0 n s = Some s"
| "runSteps (Suc k) n s =
     (if rowv s \<noteq> -1 \<and> colv s \<noteq> -1
      then (case loopBody n s of
              Some (Continue s') \<Rightarrow> runSteps k n s'
            | _ \<Rightarrow> None)
      else None)"

text \<open>
  The measure that shows the loop comes to an end: the number of \<^verbatim>\<open>moves\<close> flags still
  \<open>1\<close> in each frame, from the bottom frame to the top, padded to the greatest depth a
  stack can reach on an input with \<open>k\<close> empty cells by an entry larger than any such
  number. A push makes the first padding entry smaller; a backtrack step clears a flag of
  the frame below the popped one. The lists are compared lexicographically.
\<close>

definition validMoves :: "Node \<Rightarrow> nat" where
  "validMoves f = length (filter (\<lambda>x. x = 1) (moves f))"

definition stackWeight :: "nat \<Rightarrow> nat \<Rightarrow> Node list \<Rightarrow> nat list" where
  "stackWeight k m fs = map validMoves (rev fs) @ replicate (k + 1 - length fs) (m + 1)"

text \<open>
  The scan of \<^verbatim>\<open>findNextEmptyCell\<close> as the specification words it: the cells in row-major
  order from \<open>(lastRow, lastCol)\<close>, every later row starting at column \<open>0\<close>, and the first
  of them that is empty, or the failure code with \<open>row = col = -1\<close>.
\<close>

definition scanOrder :: "int \<Rightarrow> int \<Rightarrow> int \<Rightarrow> (int \<times> int) list" where
  "scanOrder n lastRow lastCol =
     (if lastRow < n
      then map (Pair lastRow) [lastCol..n - 1]
           @ concat (map (\<lambda>i. map (Pair i) [0..n - 1]) [lastRow + 1..n - 1])
      else [])"

definition firstEmptyCell :: "Node \<Rightarrow> int \<times> int \<times> int" where
  "firstEmptyCell node =
     (case List.find (\<lambda>(i, j). cell node i j = 0)
             (scanOrder (size_n node) (row node) (col node)) of
        Some (i, j) \<Rightarrow> (EXIT_SUCCESS, i, j)
      | None \<Rightarrow> (EXIT_FAILURE, -1, -1))"

section \<open>Invariants of the solver\<close>

subsection \<open>Well-formed nodes; the scan of findNextEmptyCell\<close>

lemma map_nth_rows:
  assumes "length sq = m" and "\<forall>rw \<in> set sq. length rw = m"
  shows "map (\<lambda>i. map (\<lambda>j. sq ! i ! j) [0..<m]) [0..<m] = sq"
proof (rule nth_equalityI)
  show "length (map (\<lambda>i. map (\<lambda>j. sq ! i ! j) [0..<m]) [0..<m]) = length sq"
    using assms by simp
next
  fix i assume "i < length (map (\<lambda>i. map (\<lambda>j. sq ! i ! j) [0..<m]) [0..<m])"
  then have i: "i < m" by simp
  then have "length (sq ! i) = m" using assms by simp
  then have "map (\<lambda>j. sq ! i ! j) [0..<m] = sq ! i"
    using map_nth [of "sq ! i"] by simp
  then show "map (\<lambda>i. map (\<lambda>j. sq ! i ! j) [0..<m]) [0..<m] ! i = sq ! i"
    using i by simp
qed

lemma cloneNode_wf: "wf_node n node \<Longrightarrow> cloneNode node = node"
  unfolding wf_node_def cloneNode_def
  using map_nth_rows [of "square node" "nat n"] map_nth [of "moves node"]
  by simp

lemma resetMoves_length: "length (resetMoves ms n i) = length ms"
  by (induction ms n i rule: resetMoves.induct) (subst resetMoves.simps, simp)

lemma scanRow_Some:
  "scanRow node i j = Some c \<Longrightarrow>
     j \<le> c \<and> c < size_n node \<and> cell node i c = 0
     \<and> (\<forall>c'. j \<le> c' \<and> c' < c \<longrightarrow> cell node i c' \<noteq> 0)"
proof (induction node i j rule: scanRow.induct)
  case (1 node i j)
  show ?case
  proof (cases "j < size_n node \<and> cell node i j \<noteq> 0")
    case True
    then have "scanRow node i (j + 1) = Some c"
      using "1.prems" by (subst (asm) scanRow.simps) simp
    then have ih: "j + 1 \<le> c \<and> c < size_n node \<and> cell node i c = 0
       \<and> (\<forall>c'. j + 1 \<le> c' \<and> c' < c \<longrightarrow> cell node i c' \<noteq> 0)"
      using "1.IH" True by simp
    have "\<forall>c'. j \<le> c' \<and> c' < c \<longrightarrow> cell node i c' \<noteq> 0"
    proof (intro allI impI)
      fix c' assume "j \<le> c' \<and> c' < c"
      then have "c' = j \<or> (j + 1 \<le> c' \<and> c' < c)" by arith
      then show "cell node i c' \<noteq> 0" using True ih by blast
    qed
    then show ?thesis using ih by simp
  next
    case False
    then show ?thesis using "1.prems"
      by (subst (asm) scanRow.simps) (auto split: if_splits)
  qed
qed

lemma scanRow_None:
  "scanRow node i j = None \<Longrightarrow> j \<le> c' \<Longrightarrow> c' < size_n node \<Longrightarrow> cell node i c' \<noteq> 0"
proof (induction node i j rule: scanRow.induct)
  case (1 node i j)
  have j: "j < size_n node" using "1.prems" by simp
  have nz: "cell node i j \<noteq> 0" and nxt: "scanRow node i (j + 1) = None"
    using "1.prems"(1) j by (subst (asm) scanRow.simps, simp split: if_splits)+
  show ?case
  proof (cases "c' = j")
    case True
    then show ?thesis using nz by simp
  next
    case False
    then have "j + 1 \<le> c'" using "1.prems" by simp
    then show ?thesis using "1.IH" j nz nxt "1.prems" by simp
  qed
qed

lemma scannedBefore_step:
  "scannedBefore i lc r c i' j' \<Longrightarrow> i + 1 \<le> r \<Longrightarrow>
     (i' = i \<and> lc \<le> j') \<or> scannedBefore (i + 1) 0 r c i' j'"
  unfolding scannedBefore_def by (cases "i' = i + 1") auto

lemma scanRows_cases:
  "scanRows node i lc = (st, r, c) \<Longrightarrow>
     (st = EXIT_FAILURE \<and> r = -1 \<and> c = -1
        \<and> (\<forall>i' j'. i' < size_n node \<and> j' < size_n node
              \<and> ((i' = i \<and> lc \<le> j') \<or> (i < i' \<and> 0 \<le> j')) \<longrightarrow> cell node i' j' \<noteq> 0))
   \<or> (st = EXIT_SUCCESS \<and> i \<le> r \<and> r < size_n node \<and> c < size_n node
        \<and> (if r = i then lc \<le> c else 0 \<le> c) \<and> cell node r c = 0
        \<and> (\<forall>i' j'. i' < size_n node \<and> j' < size_n node \<and> scannedBefore i lc r c i' j'
              \<longrightarrow> cell node i' j' \<noteq> 0))"
proof (induction node i lc arbitrary: st r c rule: scanRows.induct)
  case (1 node i lc)
  show ?case
  proof (cases "i < size_n node")
    case False
    then show ?thesis using "1.prems"
      by (subst (asm) scanRows.simps) auto
  next
    case inb: True
    show ?thesis
    proof (cases "scanRow node i lc")
      case (Some j)
      then have res: "st = EXIT_SUCCESS" "r = i" "c = j"
        using "1.prems" inb by (subst (asm) scanRows.simps, simp)+
      from scanRow_Some [OF Some] show ?thesis
        using res inb by (auto simp: scannedBefore_def)
    next
      case None
      then have rec: "scanRows node (i + 1) 0 = (st, r, c)"
        using "1.prems" inb by (subst (asm) scanRows.simps) simp
      note ih = "1.IH" [OF inb None rec]
      have row_nz: "\<And>j'. lc \<le> j' \<Longrightarrow> j' < size_n node \<Longrightarrow> cell node i j' \<noteq> 0"
        using scanRow_None [OF None] by blast
      from ih show ?thesis
      proof
        assume a: "st = EXIT_FAILURE \<and> r = -1 \<and> c = -1
          \<and> (\<forall>i' j'. i' < size_n node \<and> j' < size_n node
              \<and> ((i' = i + 1 \<and> 0 \<le> j') \<or> (i + 1 < i' \<and> 0 \<le> j')) \<longrightarrow> cell node i' j' \<noteq> 0)"
        have "\<forall>i' j'. i' < size_n node \<and> j' < size_n node
              \<and> ((i' = i \<and> lc \<le> j') \<or> (i < i' \<and> 0 \<le> j')) \<longrightarrow> cell node i' j' \<noteq> 0"
        proof (intro allI impI)
          fix i' j'
          assume h: "i' < size_n node \<and> j' < size_n node
              \<and> ((i' = i \<and> lc \<le> j') \<or> (i < i' \<and> 0 \<le> j'))"
          then consider "i' = i \<and> lc \<le> j'" | "i' = i + 1 \<and> 0 \<le> j'" | "i + 1 < i' \<and> 0 \<le> j'"
            by linarith
          then show "cell node i' j' \<noteq> 0"
            using h a row_nz by cases blast+
        qed
        then show ?thesis using a by simp
      next
        assume b: "st = EXIT_SUCCESS \<and> i + 1 \<le> r \<and> r < size_n node \<and> c < size_n node
        \<and> (if r = i + 1 then 0 \<le> c else 0 \<le> c) \<and> cell node r c = 0
        \<and> (\<forall>i' j'. i' < size_n node \<and> j' < size_n node \<and> scannedBefore (i + 1) 0 r c i' j'
              \<longrightarrow> cell node i' j' \<noteq> 0)"
        have "\<forall>i' j'. i' < size_n node \<and> j' < size_n node \<and> scannedBefore i lc r c i' j'
              \<longrightarrow> cell node i' j' \<noteq> 0"
        proof (intro allI impI)
          fix i' j'
          assume h: "i' < size_n node \<and> j' < size_n node \<and> scannedBefore i lc r c i' j'"
          then consider "i' = i \<and> lc \<le> j'" | "scannedBefore (i + 1) 0 r c i' j'"
            using b scannedBefore_step [of i lc r c i' j'] by blast
          then show "cell node i' j' \<noteq> 0"
            using h b row_nz by cases blast+
        qed
        then show ?thesis using b by (auto split: if_splits)
      qed
    qed
  qed
qed

subsection \<open>checkDuplicates, the value loop and updateNode\<close>

lemma dupInRow_iff:
  "dupInRow node num r c k \<longleftrightarrow>
     (\<exists>k'. k \<le> k' \<and> k' < size_n node \<and> k' \<noteq> c \<and> \<bar>cell node r k'\<bar> = num)"
proof (induction node num r c k rule: dupInRow.induct)
  case (1 node num r c k)
  show ?case
  proof (cases "k < size_n node")
    case False
    then show ?thesis by (subst dupInRow.simps) auto
  next
    case inb: True
    show ?thesis
    proof (cases "k \<noteq> c \<and> \<bar>cell node r k\<bar> = num")
      case True
      then show ?thesis using inb by (subst dupInRow.simps) auto
    next
      case False
      have "dupInRow node num r c k = dupInRow node num r c (k + 1)"
        using inb False by (subst dupInRow.simps) auto
      also have "\<dots> \<longleftrightarrow> (\<exists>k'. k + 1 \<le> k' \<and> k' < size_n node \<and> k' \<noteq> c \<and> \<bar>cell node r k'\<bar> = num)"
        using "1.IH" inb False by blast
      also have "\<dots> \<longleftrightarrow> (\<exists>k'. k \<le> k' \<and> k' < size_n node \<and> k' \<noteq> c \<and> \<bar>cell node r k'\<bar> = num)"
      proof
        assume "\<exists>k'. k + 1 \<le> k' \<and> k' < size_n node \<and> k' \<noteq> c \<and> \<bar>cell node r k'\<bar> = num"
        then obtain k' where "k + 1 \<le> k' \<and> k' < size_n node \<and> k' \<noteq> c \<and> \<bar>cell node r k'\<bar> = num"
          by blast
        then have "k \<le> k' \<and> k' < size_n node \<and> k' \<noteq> c \<and> \<bar>cell node r k'\<bar> = num" by simp
        then show "\<exists>k'. k \<le> k' \<and> k' < size_n node \<and> k' \<noteq> c \<and> \<bar>cell node r k'\<bar> = num" by blast
      next
        assume "\<exists>k'. k \<le> k' \<and> k' < size_n node \<and> k' \<noteq> c \<and> \<bar>cell node r k'\<bar> = num"
        then obtain k' where k': "k \<le> k' \<and> k' < size_n node \<and> k' \<noteq> c \<and> \<bar>cell node r k'\<bar> = num"
          by blast
        then have "k' \<noteq> k" using False by blast
        then have "k + 1 \<le> k' \<and> k' < size_n node \<and> k' \<noteq> c \<and> \<bar>cell node r k'\<bar> = num"
          using k' by simp
        then show "\<exists>k'. k + 1 \<le> k' \<and> k' < size_n node \<and> k' \<noteq> c \<and> \<bar>cell node r k'\<bar> = num" by blast
      qed
      finally show ?thesis .
    qed
  qed
qed

lemma dupInCol_iff:
  "dupInCol node num r c k \<longleftrightarrow>
     (\<exists>k'. k \<le> k' \<and> k' < size_n node \<and> k' \<noteq> r \<and> \<bar>cell node k' c\<bar> = num)"
proof (induction node num r c k rule: dupInCol.induct)
  case (1 node num r c k)
  show ?case
  proof (cases "k < size_n node")
    case False
    then show ?thesis by (subst dupInCol.simps) auto
  next
    case inb: True
    show ?thesis
    proof (cases "k \<noteq> r \<and> \<bar>cell node k c\<bar> = num")
      case True
      then show ?thesis using inb by (subst dupInCol.simps) auto
    next
      case False
      have "dupInCol node num r c k = dupInCol node num r c (k + 1)"
        using inb False by (subst dupInCol.simps) auto
      also have "\<dots> \<longleftrightarrow> (\<exists>k'. k + 1 \<le> k' \<and> k' < size_n node \<and> k' \<noteq> r \<and> \<bar>cell node k' c\<bar> = num)"
        using "1.IH" inb False by blast
      also have "\<dots> \<longleftrightarrow> (\<exists>k'. k \<le> k' \<and> k' < size_n node \<and> k' \<noteq> r \<and> \<bar>cell node k' c\<bar> = num)"
      proof
        assume "\<exists>k'. k + 1 \<le> k' \<and> k' < size_n node \<and> k' \<noteq> r \<and> \<bar>cell node k' c\<bar> = num"
        then obtain k' where "k + 1 \<le> k' \<and> k' < size_n node \<and> k' \<noteq> r \<and> \<bar>cell node k' c\<bar> = num"
          by blast
        then have "k \<le> k' \<and> k' < size_n node \<and> k' \<noteq> r \<and> \<bar>cell node k' c\<bar> = num" by simp
        then show "\<exists>k'. k \<le> k' \<and> k' < size_n node \<and> k' \<noteq> r \<and> \<bar>cell node k' c\<bar> = num" by blast
      next
        assume "\<exists>k'. k \<le> k' \<and> k' < size_n node \<and> k' \<noteq> r \<and> \<bar>cell node k' c\<bar> = num"
        then obtain k' where k': "k \<le> k' \<and> k' < size_n node \<and> k' \<noteq> r \<and> \<bar>cell node k' c\<bar> = num"
          by blast
        then have "k' \<noteq> k" using False by blast
        then have "k + 1 \<le> k' \<and> k' < size_n node \<and> k' \<noteq> r \<and> \<bar>cell node k' c\<bar> = num"
          using k' by simp
        then show "\<exists>k'. k + 1 \<le> k' \<and> k' < size_n node \<and> k' \<noteq> r \<and> \<bar>cell node k' c\<bar> = num" by blast
      qed
      finally show ?thesis .
    qed
  qed
qed

lemma checkDuplicates_iff:
  "checkDuplicates node num r c \<longleftrightarrow>
     (\<exists>k. 0 \<le> k \<and> k < size_n node \<and> k \<noteq> c \<and> \<bar>cell node r k\<bar> = num)
   \<or> (\<exists>k. 0 \<le> k \<and> k < size_n node \<and> k \<noteq> r \<and> \<bar>cell node k c\<bar> = num)"
  unfolding checkDuplicates_def by (simp add: dupInRow_iff dupInCol_iff)

lemma tryValues_cases:
  "tryValues n stk nn r c i = (pushed, stk', nn') \<Longrightarrow>
     (\<not> pushed \<and> stk' = stk \<and> nn' = nn
        \<and> (\<forall>v. i \<le> v \<and> v \<le> n \<longrightarrow> \<not> (moves nn ! nat (v - 1) = 1 \<and> \<not> checkDuplicates nn v r c)))
   \<or> (pushed \<and> (\<exists>v. i \<le> v \<and> v \<le> n \<and> moves nn ! nat (v - 1) = 1 \<and> \<not> checkDuplicates nn v r c
          \<and> (\<forall>w. i \<le> w \<and> w < v \<longrightarrow> \<not> (moves nn ! nat (w - 1) = 1 \<and> \<not> checkDuplicates nn w r c))
          \<and> nn' = updateNode nn r c v \<and> stk' = snd (push stk (updateNode nn r c v))))"
proof (induction n stk nn r c i rule: tryValues.induct)
  case (1 n stk nn r c i)
  show ?case
  proof (cases "i \<le> n")
    case False
    then show ?thesis using "1.prems" by (subst (asm) tryValues.simps) auto
  next
    case inb: True
    show ?thesis
    proof (cases "moves nn ! nat (i - 1) = 1 \<and> \<not> checkDuplicates nn i r c")
      case True
      then have "pushed" "nn' = updateNode nn r c i" "stk' = snd (push stk (updateNode nn r c i))"
        using "1.prems" inb by (subst (asm) tryValues.simps, simp add: Let_def)+
      then show ?thesis using True inb by auto
    next
      case False
      then have rec: "tryValues n stk nn r c (i + 1) = (pushed, stk', nn')"
        using "1.prems" inb by (subst (asm) tryValues.simps) auto
      have step: "\<And>v. i \<le> v \<Longrightarrow> v = i \<or> i + 1 \<le> v" by arith
      from "1.IH" [OF inb False rec] show ?thesis
      proof
        assume a: "\<not> pushed \<and> stk' = stk \<and> nn' = nn
          \<and> (\<forall>v. i + 1 \<le> v \<and> v \<le> n \<longrightarrow> \<not> (moves nn ! nat (v - 1) = 1 \<and> \<not> checkDuplicates nn v r c))"
        have "\<forall>v. i \<le> v \<and> v \<le> n \<longrightarrow> \<not> (moves nn ! nat (v - 1) = 1 \<and> \<not> checkDuplicates nn v r c)"
          using a False step by blast
        then show ?thesis using a by blast
      next
        assume "pushed \<and> (\<exists>v. i + 1 \<le> v \<and> v \<le> n \<and> moves nn ! nat (v - 1) = 1 \<and> \<not> checkDuplicates nn v r c
          \<and> (\<forall>w. i + 1 \<le> w \<and> w < v \<longrightarrow> \<not> (moves nn ! nat (w - 1) = 1 \<and> \<not> checkDuplicates nn w r c))
          \<and> nn' = updateNode nn r c v \<and> stk' = snd (push stk (updateNode nn r c v)))"
        then obtain v where p: "pushed" and v: "i + 1 \<le> v" "v \<le> n" "moves nn ! nat (v - 1) = 1"
            "\<not> checkDuplicates nn v r c"
            "\<forall>w. i + 1 \<le> w \<and> w < v \<longrightarrow> \<not> (moves nn ! nat (w - 1) = 1 \<and> \<not> checkDuplicates nn w r c)"
            "nn' = updateNode nn r c v" "stk' = snd (push stk (updateNode nn r c v))"
          by blast
        have "\<forall>w. i \<le> w \<and> w < v \<longrightarrow> \<not> (moves nn ! nat (w - 1) = 1 \<and> \<not> checkDuplicates nn w r c)"
          using v(5) False step by blast
        moreover have "i \<le> v" using v(1) by simp
        ultimately show ?thesis using p v by blast
      qed
    qed
  qed
qed

lemma cell_updateNode:
  assumes "wf_node n nn" "0 \<le> r" "r < n" "0 \<le> c" "c < n" "0 \<le> i" "i < n" "0 \<le> j" "j < n"
  shows "cell (updateNode nn r c v) i j = (if i = r \<and> j = c then v else cell nn i j)"
proof -
  have len: "length (square nn) = nat n" and rows: "\<And>k. k < nat n \<Longrightarrow> length (square nn ! k) = nat n"
    using assms(1) unfolding wf_node_def by auto
  have eqs: "nat i = nat r \<longleftrightarrow> i = r" "nat j = nat c \<longleftrightarrow> j = c"
    using assms by auto
  have lt: "nat r < nat n" "nat c < nat n" "nat i < nat n" "nat j < nat n" using assms by auto
  show ?thesis
    unfolding cell_def updateNode_def
    using len rows [OF lt(1)] lt eqs by (auto simp: nth_list_update)
qed

lemma wf_updateNode:
  assumes "wf_node n nn" "0 \<le> r" "0 \<le> c"
  shows "wf_node n (updateNode nn r c v)"
proof -
  have rows: "\<forall>rw \<in> set (square nn). length rw = nat n"
    using assms(1) unfolding wf_node_def by simp
  have "\<forall>rw \<in> set ((square nn)[nat r := (square nn ! nat r)[nat c := v]]). length rw = nat n"
  proof (cases "nat r < length (square nn)")
    case True
    then have "length ((square nn ! nat r)[nat c := v]) = nat n"
      using rows by simp
    then show ?thesis
      using rows set_update_subset_insert [of "square nn" "nat r" "(square nn ! nat r)[nat c := v]"]
      by auto
  next
    case False
    then show ?thesis using rows by (simp add: list_update_beyond)
  qed
  then show ?thesis
    using assms unfolding wf_node_def updateNode_def by (simp add: resetMoves_length)
qed

subsection \<open>Grid predicates and the next empty cell\<close>

lemma noRepeat_iff:
  "noRepeat n f \<longleftrightarrow>
     (\<forall>i j j'. inGrid n i j \<and> inGrid n i j' \<and> j \<noteq> j' \<and> cell f i j \<noteq> 0
          \<longrightarrow> \<bar>cell f i j\<bar> \<noteq> \<bar>cell f i j'\<bar>)
   \<and> (\<forall>i i' j. inGrid n i j \<and> inGrid n i' j \<and> i \<noteq> i' \<and> cell f i j \<noteq> 0
          \<longrightarrow> \<bar>cell f i j\<bar> \<noteq> \<bar>cell f i' j\<bar>)"
proof -
  have m: "\<And>i. i \<in> set [0..n - 1] \<longleftrightarrow> 0 \<le> i \<and> i < n" by auto
  show ?thesis unfolding noRepeat_def inGrid_def Ball_def m by blast
qed

lemma findNextEmptyCell_cases:
  assumes wf: "wf_node n f" and pre: "filledBefore n f (row f) (col f)"
    and res: "findNextEmptyCell f = (st, r, c)"
  shows "(st = EXIT_FAILURE \<and> r = -1 \<and> c = -1 \<and> complete n f)
       \<or> (st = EXIT_SUCCESS \<and> inGrid n r c \<and> cell f r c = 0 \<and> filledBefore n f r c)"
proof -
  have sz: "size_n f = n" and r0: "0 \<le> row f" and c0: "0 \<le> col f"
    using wf unfolding wf_node_def by auto
  from res have "scanRows f (row f) (col f) = (st, r, c)"
    unfolding findNextEmptyCell_def .
  from scanRows_cases [OF this] show ?thesis
  proof
    assume a: "st = EXIT_FAILURE \<and> r = -1 \<and> c = -1
        \<and> (\<forall>i' j'. i' < size_n f \<and> j' < size_n f
              \<and> ((i' = row f \<and> col f \<le> j') \<or> (row f < i' \<and> 0 \<le> j')) \<longrightarrow> cell f i' j' \<noteq> 0)"
    have "complete n f"
      unfolding complete_def
    proof (intro allI impI)
      fix i j assume g: "inGrid n i j"
      then consider "i < row f \<or> (i = row f \<and> j < col f)"
        | "(i = row f \<and> col f \<le> j) \<or> (row f < i \<and> 0 \<le> j)"
        unfolding inGrid_def by linarith
      then show "cell f i j \<noteq> 0"
      proof cases
        case 1
        then show ?thesis using pre g unfolding filledBefore_def by blast
      next
        case 2
        then show ?thesis using a g sz unfolding inGrid_def by blast
      qed
    qed
    then show ?thesis using a by simp
  next
    assume b: "st = EXIT_SUCCESS \<and> row f \<le> r \<and> r < size_n f \<and> c < size_n f
        \<and> (if r = row f then col f \<le> c else 0 \<le> c) \<and> cell f r c = 0
        \<and> (\<forall>i' j'. i' < size_n f \<and> j' < size_n f \<and> scannedBefore (row f) (col f) r c i' j'
              \<longrightarrow> cell f i' j' \<noteq> 0)"
    then have g: "inGrid n r c"
      using sz r0 c0 unfolding inGrid_def by (auto split: if_splits)
    have "filledBefore n f r c"
      unfolding filledBefore_def
    proof (intro allI impI)
      fix i j assume h: "inGrid n i j \<and> (i < r \<or> (i = r \<and> j < c))"
      then consider "i < row f \<or> (i = row f \<and> j < col f)"
        | "scannedBefore (row f) (col f) r c i j"
        unfolding inGrid_def scannedBefore_def by linarith
      then show "cell f i j \<noteq> 0"
      proof cases
        case 1
        then show ?thesis using pre h unfolding filledBefore_def by blast
      next
        case 2
        then show ?thesis using b h sz unfolding inGrid_def by blast
      qed
    qed
    then show ?thesis using b g by simp
  qed
qed

lemma filter_zero_update:
  assumes "i < length xs" "xs ! i = (0::int)" "v \<noteq> 0"
  shows "length (filter (\<lambda>x. x = 0) (xs[i := v])) + 1 = length (filter (\<lambda>x. x = 0) xs)"
proof -
  have a: "xs[i := v] = take i xs @ v # drop (Suc i) xs"
    using assms(1) by (rule upd_conv_take_nth_drop)
  have b: "xs = take i xs @ xs ! i # drop (Suc i) xs"
    using assms(1) by (rule id_take_nth_drop)
  have "length (filter (\<lambda>x. x = 0) xs)
      = length (filter (\<lambda>x. x = 0) (take i xs @ xs ! i # drop (Suc i) xs))"
    using b by simp
  then show ?thesis using a assms(2,3) by simp
qed

lemma emptyCells_update:
  assumes "i < length sq" "j < length (sq ! i)" "sq ! i ! j = 0" "v \<noteq> 0"
  shows "emptyCells (sq[i := (sq ! i)[j := v]]) + 1 = emptyCells sq"
proof -
  have a: "sq[i := (sq ! i)[j := v]] = take i sq @ (sq ! i)[j := v] # drop (Suc i) sq"
    using assms(1) by (rule upd_conv_take_nth_drop)
  have b: "sq = take i sq @ sq ! i # drop (Suc i) sq"
    using assms(1) by (rule id_take_nth_drop)
  have "emptyCells sq = emptyCells (take i sq @ sq ! i # drop (Suc i) sq)"
    using b by simp
  also have "\<dots> = length (filter (\<lambda>x. x = 0) (concat (take i sq)))
       + length (filter (\<lambda>x. x = 0) (sq ! i))
       + length (filter (\<lambda>x. x = 0) (concat (drop (Suc i) sq)))"
    unfolding emptyCells_def by simp
  also have "\<dots> = length (filter (\<lambda>x. x = 0) (concat (take i sq)))
       + (length (filter (\<lambda>x. x = 0) ((sq ! i)[j := v])) + 1)
       + length (filter (\<lambda>x. x = 0) (concat (drop (Suc i) sq)))"
    using filter_zero_update [OF assms(2,3,4)] by simp
  also have "\<dots> = emptyCells (take i sq @ (sq ! i)[j := v] # drop (Suc i) sq) + 1"
    unfolding emptyCells_def by simp
  finally show ?thesis using a by simp
qed

lemma emptyCells_updateNode:
  assumes "wf_node n f" "inGrid n r c" "cell f r c = 0" "v \<noteq> 0"
  shows "emptyCells (square (updateNode f r c v)) + 1 = emptyCells (square f)"
proof -
  have lt: "nat r < nat n" "nat c < nat n" using assms(2) unfolding inGrid_def by auto
  have len: "length (square f) = nat n" and rows: "length (square f ! nat r) = nat n"
    using assms(1) lt unfolding wf_node_def by auto
  show ?thesis
    using emptyCells_update [of "nat r" "square f" "nat c" v] lt len rows assms(3,4)
    unfolding updateNode_def cell_def by simp
qed

subsection \<open>Frames and chains of frames\<close>

lemma updateNode_fields [simp]:
  "row (updateNode f r c v) = r" "col (updateNode f r c v) = c"
  "size_n (updateNode f r c v) = size_n f"
  by (simp_all add: updateNode_def)

lemma noRepeat_updateNode:
  assumes wf: "wf_node n f" and g: "inGrid n r c" and v: "1 \<le> v"
    and nd: "\<not> checkDuplicates f v r c" and nr: "noRepeat n f"
  shows "noRepeat n (updateNode f r c v)"
proof -
  have sz: "size_n f = n" using wf unfolding wf_node_def by simp
  have c': "\<And>i j. inGrid n i j \<Longrightarrow>
      cell (updateNode f r c v) i j = (if i = r \<and> j = c then v else cell f i j)"
    using cell_updateNode [OF wf] g unfolding inGrid_def by simp
  have rowfree: "\<And>k. inGrid n r k \<Longrightarrow> k \<noteq> c \<Longrightarrow> \<bar>cell f r k\<bar> \<noteq> v"
    using nd sz unfolding checkDuplicates_iff inGrid_def by blast
  have colfree: "\<And>k. inGrid n k c \<Longrightarrow> k \<noteq> r \<Longrightarrow> \<bar>cell f k c\<bar> \<noteq> v"
    using nd sz unfolding checkDuplicates_iff inGrid_def by blast
  have av: "\<bar>v\<bar> = v" using v by simp
  have rows: "\<And>i j j'. inGrid n i j \<Longrightarrow> inGrid n i j' \<Longrightarrow> j \<noteq> j' \<Longrightarrow> cell f i j \<noteq> 0
      \<Longrightarrow> \<bar>cell f i j\<bar> \<noteq> \<bar>cell f i j'\<bar>"
    using nr unfolding noRepeat_iff by blast
  have cols: "\<And>i i' j. inGrid n i j \<Longrightarrow> inGrid n i' j \<Longrightarrow> i \<noteq> i' \<Longrightarrow> cell f i j \<noteq> 0
      \<Longrightarrow> \<bar>cell f i j\<bar> \<noteq> \<bar>cell f i' j\<bar>"
    using nr unfolding noRepeat_iff by blast
  show ?thesis
    unfolding noRepeat_iff
  proof (intro conjI allI impI)
    fix i j j'
    assume h: "inGrid n i j \<and> inGrid n i j' \<and> j \<noteq> j' \<and> cell (updateNode f r c v) i j \<noteq> 0"
    show "\<bar>cell (updateNode f r c v) i j\<bar> \<noteq> \<bar>cell (updateNode f r c v) i j'\<bar>"
    proof (cases "i = r \<and> j = c")
      case True
      then have "cell (updateNode f r c v) i j = v" using c' h by simp
      moreover have "cell (updateNode f r c v) i j' = cell f r j'" using c' h True by auto
      moreover have "\<bar>cell f r j'\<bar> \<noteq> v" using rowfree [of j'] h True by auto
      ultimately show ?thesis using av by simp
    next
      case False
      then have e1: "cell (updateNode f r c v) i j = cell f i j" using c' h by auto
      show ?thesis
      proof (cases "i = r \<and> j' = c")
        case True
        then have "cell (updateNode f r c v) i j' = v" using c' h by simp
        moreover have "\<bar>cell f r j\<bar> \<noteq> v" using rowfree [of j] h True by auto
        ultimately show ?thesis using av e1 True by simp
      next
        case F2: False
        then have "cell (updateNode f r c v) i j' = cell f i j'" using c' h by auto
        then show ?thesis using e1 rows [of i j j'] h by simp
      qed
    qed
  next
    fix i i' j
    assume h: "inGrid n i j \<and> inGrid n i' j \<and> i \<noteq> i' \<and> cell (updateNode f r c v) i j \<noteq> 0"
    show "\<bar>cell (updateNode f r c v) i j\<bar> \<noteq> \<bar>cell (updateNode f r c v) i' j\<bar>"
    proof (cases "i = r \<and> j = c")
      case True
      then have "cell (updateNode f r c v) i j = v" using c' h by simp
      moreover have "cell (updateNode f r c v) i' j = cell f i' c" using c' h True by auto
      moreover have "\<bar>cell f i' c\<bar> \<noteq> v" using colfree [of i'] h True by auto
      ultimately show ?thesis using av by simp
    next
      case False
      then have e1: "cell (updateNode f r c v) i j = cell f i j" using c' h by auto
      show ?thesis
      proof (cases "i' = r \<and> j = c")
        case True
        then have "cell (updateNode f r c v) i' j = v" using c' h by simp
        moreover have "\<bar>cell f i c\<bar> \<noteq> v" using colfree [of i] h True by auto
        ultimately show ?thesis using av e1 True by simp
      next
        case F2: False
        then have "cell (updateNode f r c v) i' j = cell f i' j" using c' h by auto
        then show ?thesis using e1 cols [of i j i'] h by simp
      qed
    qed
  qed
qed

lemma frame_ok_updateNode:
  assumes ok: "frame_ok n n0 f" and g: "inGrid n r c" and z: "cell f r c = 0"
    and fb: "filledBefore n f r c" and v: "1 \<le> v" "v \<le> n"
    and nd: "\<not> checkDuplicates f v r c" and mv: "moves f ! nat (v - 1) = 1"
  shows "frame_ok n n0 (updateNode f r c v) \<and> link n (updateNode f r c v) f"
proof -
  have wf: "wf_node n f" using ok unfolding frame_ok_def by simp
  have c': "\<And>i j. inGrid n i j \<Longrightarrow>
      cell (updateNode f r c v) i j = (if i = r \<and> j = c then v else cell f i j)"
    using cell_updateNode [OF wf] g unfolding inGrid_def by simp
  have rc: "0 \<le> r" "0 \<le> c" using g unfolding inGrid_def by auto
  have w: "wf_node n (updateNode f r c v)" using wf_updateNode [OF wf rc] .
  have p: "filledBefore n (updateNode f r c v) r c"
    using fb c' unfolding filledBefore_def by auto
  have k: "keepsFilled n n0 (updateNode f r c v)"
    unfolding keepsFilled_def
  proof (intro allI impI)
    fix i j assume h: "inGrid n i j \<and> cell n0 i j \<noteq> 0"
    then have "cell f i j = cell n0 i j" using ok unfolding frame_ok_def keepsFilled_def by blast
    then have "\<not> (i = r \<and> j = c)" using h z by auto
    then show "cell (updateNode f r c v) i j = cell n0 i j"
      using c' h \<open>cell f i j = cell n0 i j\<close> by auto
  qed
  have rg: "inRange n (updateNode f r c v)"
    unfolding inRange_def
  proof (intro allI impI)
    fix i j assume h: "inGrid n i j"
    then have "- n \<le> cell f i j \<and> cell f i j \<le> n"
      using ok unfolding frame_ok_def inRange_def by blast
    then show "- n \<le> cell (updateNode f r c v) i j \<and> cell (updateNode f r c v) i j \<le> n"
      using c' [OF h] v by auto
  qed
  have nr: "noRepeat n n0 \<longrightarrow> noRepeat n (updateNode f r c v)"
    using noRepeat_updateNode [OF wf g v(1) nd] ok unfolding frame_ok_def by blast
  have e: "emptyCells (square (updateNode f r c v)) + 1 = emptyCells (square f)"
    using emptyCells_updateNode [OF wf g z] v by simp
  have l: "link n (updateNode f r c v) f"
    unfolding link_def using g z v e c' mv by auto
  show ?thesis using w p k rg nr l unfolding frame_ok_def by simp
qed

lemma cell_moves_update [simp]: "cell (f\<lparr>moves := ms\<rparr>) i j = cell f i j"
  by (simp add: cell_def)

lemma frame_ok_moves:
  "frame_ok n n0 f \<Longrightarrow> length ms = length (moves f) \<Longrightarrow> frame_ok n n0 (f\<lparr>moves := ms\<rparr>)"
  unfolding frame_ok_def wf_node_def filledBefore_def keepsFilled_def inRange_def noRepeat_iff
  by simp

lemma chain_moves_top: "chain n (b\<lparr>moves := ms\<rparr> # fs) = chain n (b # fs)"
  by (cases fs) (simp_all add: link_def)

lemma chain_emptyCells:
  "chain n fs \<Longrightarrow> fs \<noteq> [] \<Longrightarrow>
     emptyCells (square (hd fs)) + length fs = emptyCells (square (last fs)) + 1"
proof (induction fs)
  case Nil
  then show ?case by simp
next
  case (Cons a fs)
  show ?case
  proof (cases fs)
    case Nil
    then show ?thesis by simp
  next
    case below: (Cons b rest)
    then have "link n a b" "chain n fs" using Cons.prems(1) by simp_all
    then show ?thesis using Cons.IH below by (simp add: link_def)
  qed
qed

subsection \<open>One iteration of the solver loop\<close>

lemma endOfIteration_top:
  assumes "top_s (stack s) = t # rest" "wf_node n t"
  shows "\<exists>st r c. findNextEmptyCell t = (st, r, c)
     \<and> endOfIteration s = Some (Continue (s\<lparr>newNode := t, rowv := r, colv := c,
                                             stepCounter := stepCounter s + 1\<rparr>))"
proof -
  obtain st r c where f: "findNextEmptyCell t = (st, r, c)"
    by (cases "findNextEmptyCell t") auto
  have "endOfIteration s = Some (Continue (s\<lparr>newNode := t, rowv := r, colv := c,
                                             stepCounter := stepCounter s + 1\<rparr>))"
    unfolding endOfIteration_def using assms(1) cloneNode_wf [OF assms(2)] f by simp
  then show ?thesis using f by blast
qed

lemma pop_top:
  assumes "top_s stk = t # rest" "size_s stk \<noteq> 0" "wf_node n t"
  shows "pop stk = Some (EXIT_SUCCESS, stk\<lparr>top_s := rest, size_s := size_s stk - 1\<rparr>, Some t)"
proof -
  have "cloneNode t = t" using cloneNode_wf [OF assms(3)] .
  then have "\<lparr>square = map (\<lambda>i. map (\<lambda>j. square t ! i ! j) [0..<nat (size_n t)])
                                        [0..<nat (size_n t)],
                            size_n = size_n t, row = row t, col = col t,
                            moves = map (\<lambda>i. moves t ! i) [0..<nat (size_n t)]\<rparr> = t"
    unfolding cloneNode_def .
  then show ?thesis
    unfolding pop_def isEmpty_def using assms(1,2) by simp
qed

lemma loopBody_push:
  assumes inv: "solver_inv n n0 s"
    and tv: "tryValues n (stack s) (newNode s) (rowv s) (colv s) 1 = (True, stk1, nn1)"
    and run: "rowv s \<noteq> -1 \<and> colv s \<noteq> -1"
  shows "\<exists>s'. loopBody n s = Some (Continue s') \<and> solver_inv n n0 s'
           \<and> top_s (stack s') = nn1 # top_s (stack s)
           \<and> pushCounter s' = pushCounter s + 1 \<and> popCounter s' = popCounter s"
proof -
  obtain f rest where fs: "top_s (stack s) = f # rest"
    using inv unfolding solver_inv_def by (cases "top_s (stack s)") auto
  have nn: "newNode s = f" using inv fs unfolding solver_inv_def by simp
  have ok: "frame_ok n n0 f" using inv fs unfolding solver_inv_def by simp
  then have wf: "wf_node n f" and pre: "filledBefore n f (row f) (col f)"
    unfolding frame_ok_def by auto
  obtain st where fnd: "findNextEmptyCell f = (st, rowv s, colv s)"
    using inv nn unfolding solver_inv_def by auto
  from findNextEmptyCell_cases [OF wf pre fnd] run
  have g: "inGrid n (rowv s) (colv s)" and z: "cell f (rowv s) (colv s) = 0"
    and fb: "filledBefore n f (rowv s) (colv s)" by auto
  from tryValues_cases [OF tv] obtain v where v: "1 \<le> v" "v \<le> n"
      "\<not> checkDuplicates f v (rowv s) (colv s)"
      "nn1 = updateNode f (rowv s) (colv s) v"
      "stk1 = snd (push (stack s) (updateNode f (rowv s) (colv s) v))"
      "moves f ! nat (v - 1) = 1"
    using nn by auto
  from frame_ok_updateNode [OF ok g z fb v(1,2,3,6)]
  have ok1: "frame_ok n n0 nn1" and lk: "link n nn1 f" using v(4) by auto
  have wf1: "wf_node n nn1" using ok1 unfolding frame_ok_def by simp
  have stk1: "stk1 = (stack s)\<lparr>top_s := nn1 # f # rest, size_s := size_s (stack s) + 1\<rparr>"
    using v(4,5) fs cloneNode_wf [OF wf1] unfolding push_def by (simp add: Let_def)
  define s1 where "s1 = s\<lparr>stack := stk1, newNode := nn1, pushCounter := pushCounter s + 1\<rparr>"
  have top1: "top_s (stack s1) = nn1 # f # rest" unfolding s1_def stk1 by simp
  from endOfIteration_top [OF top1 wf1] obtain st' r' c' where
    f1: "findNextEmptyCell nn1 = (st', r', c')" and
    e: "endOfIteration s1 = Some (Continue (s1\<lparr>newNode := nn1, rowv := r', colv := c',
                                             stepCounter := stepCounter s1 + 1\<rparr>))"
    by blast
  define s' where "s' = s1\<lparr>newNode := nn1, rowv := r', colv := c',
                                             stepCounter := stepCounter s1 + 1\<rparr>"
  have lb: "loopBody n s = Some (Continue s')"
    unfolding loopBody_def using tv e unfolding s1_def s'_def by simp
  have "solver_inv n n0 s'"
    using inv fs ok1 lk f1 unfolding solver_inv_def s'_def s1_def stk1 by simp
  moreover have "top_s (stack s') = nn1 # top_s (stack s)"
    unfolding s'_def s1_def stk1 using fs by simp
  moreover have "pushCounter s' = pushCounter s + 1 \<and> popCounter s' = popCounter s"
    unfolding s'_def s1_def by simp
  ultimately show ?thesis using lb by blast
qed

lemma loopBody_pop:
  assumes inv: "solver_inv n n0 s"
    and tv: "tryValues n (stack s) (newNode s) (rowv s) (colv s) 1 = (False, stk1, nn1)"
  shows "(\<exists>f. top_s (stack s) = [f]
            \<and> loopBody n s = Some (ReturnFalse (s\<lparr>stack := \<lparr>top_s = [], size_s = 0\<rparr>\<rparr>)))
       \<or> (\<exists>f b rest s'. top_s (stack s) = f # b # rest
            \<and> pop (stack s) = Some (EXIT_SUCCESS,
                    (stack s)\<lparr>top_s := b # rest, size_s := size_s (stack s) - 1\<rparr>, Some f)
            \<and> 1 \<le> cell f (row f) (col f) \<and> cell f (row f) (col f) \<le> n
            \<and> nat (cell f (row f) (col f) - 1) < length (moves b)
            \<and> moves b ! nat (cell f (row f) (col f) - 1) = 1
            \<and> loopBody n s = Some (Continue s') \<and> solver_inv n n0 s'
            \<and> top_s (stack s')
                = b\<lparr>moves := (moves b)[nat (cell f (row f) (col f) - 1) := 0]\<rparr> # rest
            \<and> pushCounter s' = pushCounter s \<and> popCounter s' = popCounter s + 1)"
proof -
  obtain f rest0 where fs: "top_s (stack s) = f # rest0"
    using inv unfolding solver_inv_def by (cases "top_s (stack s)") auto
  have nn: "newNode s = f" using inv fs unfolding solver_inv_def by simp
  have ok: "frame_ok n n0 f" using inv fs unfolding solver_inv_def by simp
  then have wf: "wf_node n f" unfolding frame_ok_def by simp
  have sz: "size_s (stack s) = int (length rest0) + 1"
    using inv fs unfolding solver_inv_def by simp
  from tryValues_cases [OF tv] have same: "stk1 = stack s" "nn1 = newNode s" by auto
  have pp: "pop (stack s) = Some (EXIT_SUCCESS,
                    (stack s)\<lparr>top_s := rest0, size_s := size_s (stack s) - 1\<rparr>, Some f)"
    using pop_top [OF fs _ wf] sz by simp
  show ?thesis
  proof (cases rest0)
    case Nil
    have "(stack s)\<lparr>top_s := [], size_s := size_s (stack s) - 1\<rparr> = \<lparr>top_s = [], size_s = 0\<rparr>"
      using sz Nil by simp
    then have "loopBody n s = Some (ReturnFalse (s\<lparr>stack := \<lparr>top_s = [], size_s = 0\<rparr>\<rparr>))"
      unfolding loopBody_def using tv same pp Nil sz by (simp add: isEmpty_def)
    then show ?thesis using fs Nil by blast
  next
    case (Cons b rest)
    have okb: "frame_ok n n0 b" using inv fs Cons unfolding solver_inv_def by simp
    then have wfb: "wf_node n b" unfolding frame_ok_def by simp
    have lk: "link n f b" and ch: "chain n (b # rest)"
      using inv fs Cons unfolding solver_inv_def by auto
    define v where "v = cell f (row f) (col f)"
    have v: "1 \<le> v" "v \<le> n" "moves b ! nat (v - 1) = 1"
      using lk unfolding link_def v_def by auto
    have lenb: "length (moves b) = nat n" using wfb unfolding wf_node_def by simp
    have idx: "0 \<le> v - 1" "nat (v - 1) < length (moves b)" using v lenb by auto
    define b' where "b' = b\<lparr>moves := (moves b)[nat (v - 1) := 0]\<rparr>"
    have okb': "frame_ok n n0 b'" unfolding b'_def using frame_ok_moves [OF okb] by simp
    then have wfb': "wf_node n b'" unfolding frame_ok_def by simp
    define s2 where "s2 = s\<lparr>stack := (stack s)\<lparr>top_s := rest0, size_s := size_s (stack s) - 1\<rparr>
                                 \<lparr>top_s := b' # rest\<rparr>,
                             newNode := nn1, popCounter := popCounter s + 1\<rparr>"
    have top2: "top_s (stack s2) = b' # rest" unfolding s2_def by simp
    from endOfIteration_top [OF top2 wfb'] obtain st' r' c' where
      f1: "findNextEmptyCell b' = (st', r', c')" and
      e: "endOfIteration s2 = Some (Continue (s2\<lparr>newNode := b', rowv := r', colv := c',
                                             stepCounter := stepCounter s2 + 1\<rparr>))"
      by blast
    define s' where "s' = s2\<lparr>newNode := b', rowv := r', colv := c',
                                             stepCounter := stepCounter s2 + 1\<rparr>"
    have ne: "\<not> isEmpty ((stack s)\<lparr>top_s := rest0, size_s := size_s (stack s) - 1\<rparr>)"
      unfolding isEmpty_def using sz Cons by simp
    have lb: "loopBody n s = Some (Continue s')"
      unfolding loopBody_def using tv same pp ne Cons idx e
      unfolding s'_def s2_def b'_def v_def by (simp add: Let_def)
    have last_eq: "square (last (b' # rest)) = square (last (f # b # rest))"
      unfolding b'_def by (cases rest) simp_all
    have "solver_inv n n0 s'"
      unfolding solver_inv_def s'_def s2_def
      using inv fs Cons okb' f1 ch last_eq chain_moves_top [where n = n and b = b and fs = rest]
      unfolding solver_inv_def b'_def by simp
    moreover have "top_s (stack s') = b' # rest" unfolding s'_def s2_def by simp
    moreover have "pushCounter s' = pushCounter s \<and> popCounter s' = popCounter s + 1"
      unfolding s'_def s2_def by simp
    ultimately show ?thesis
      using fs Cons pp v idx lb unfolding b'_def v_def by blast
  qed
qed

subsection \<open>The whole loop\<close>

lemma loopBody_inv:
  assumes inv: "solver_inv n n0 s" and run: "rowv s \<noteq> -1 \<and> colv s \<noteq> -1"
  shows "(\<exists>s'. loopBody n s = Some (Continue s') \<and> solver_inv n n0 s')
       \<or> (loopBody n s = Some (ReturnFalse (s\<lparr>stack := \<lparr>top_s = [], size_s = 0\<rparr>\<rparr>)))"
proof -
  obtain pushed stk1 nn1 where
    tv: "tryValues n (stack s) (newNode s) (rowv s) (colv s) 1 = (pushed, stk1, nn1)"
    by (cases "tryValues n (stack s) (newNode s) (rowv s) (colv s) 1") auto
  show ?thesis
  proof (cases pushed)
    case True
    then have "tryValues n (stack s) (newNode s) (rowv s) (colv s) 1 = (True, stk1, nn1)"
      using tv by simp
    from loopBody_push [OF inv this run] show ?thesis by blast
  next
    case False
    then have "tryValues n (stack s) (newNode s) (rowv s) (colv s) 1 = (False, stk1, nn1)"
      using tv by simp
    from loopBody_pop [OF inv this] show ?thesis by blast
  qed
qed

lemma solveLoop_inv:
  "solver_inv n n0 s \<Longrightarrow> solveLoop fuel n s = Some (b, s') \<Longrightarrow>
     (if b then solver_inv n n0 s' \<and> (rowv s' = -1 \<or> colv s' = -1)
      else stack s' = \<lparr>top_s = [], size_s = 0\<rparr>)"
proof (induction fuel arbitrary: s)
  case 0
  then show ?case by (auto split: if_splits)
next
  case (Suc fuel)
  show ?case
  proof (cases "rowv s \<noteq> -1 \<and> colv s \<noteq> -1")
    case False
    then show ?thesis using Suc.prems by auto
  next
    case True
    from loopBody_inv [OF Suc.prems(1) True] show ?thesis
    proof
      assume "\<exists>s1. loopBody n s = Some (Continue s1) \<and> solver_inv n n0 s1"
      then obtain s1 where s1: "loopBody n s = Some (Continue s1)" "solver_inv n n0 s1" by blast
      then have "solveLoop fuel n s1 = Some (b, s')" using Suc.prems(2) True by simp
      then show ?thesis using Suc.IH s1(2) by blast
    next
      assume "loopBody n s = Some (ReturnFalse (s\<lparr>stack := \<lparr>top_s = [], size_s = 0\<rparr>\<rparr>))"
      then show ?thesis using Suc.prems(2) True by auto
    qed
  qed
qed

lemma runSteps_inv:
  "solver_inv n n0 s \<Longrightarrow> runSteps k n s = Some s' \<Longrightarrow> solver_inv n n0 s'"
proof (induction k arbitrary: s)
  case 0
  then show ?case by simp
next
  case (Suc k)
  then have run: "rowv s \<noteq> -1 \<and> colv s \<noteq> -1" by (simp split: if_splits)
  from loopBody_inv [OF Suc.prems(1) run] show ?case
  proof
    assume "\<exists>s1. loopBody n s = Some (Continue s1) \<and> solver_inv n n0 s1"
    then obtain s1 where s1: "loopBody n s = Some (Continue s1)" "solver_inv n n0 s1" by blast
    then have "runSteps k n s1 = Some s'" using Suc.prems(2) run by simp
    then show ?thesis using Suc.IH s1(2) by blast
  next
    assume "loopBody n s = Some (ReturnFalse (s\<lparr>stack := \<lparr>top_s = [], size_s = 0\<rparr>\<rparr>))"
    then show ?thesis using Suc.prems(2) run by simp
  qed
qed

lemma solveLoop_more_fuel:
  "solveLoop fuel n s = Some res \<Longrightarrow> solveLoop (fuel + k) n s = Some res"
proof (induction fuel arbitrary: s)
  case 0
  then show ?case by (cases k) (auto split: if_splits)
next
  case (Suc fuel)
  show ?case
  proof (cases "rowv s \<noteq> -1 \<and> colv s \<noteq> -1")
    case False
    then show ?thesis using Suc.prems by auto
  next
    case True
    show ?thesis
    proof (cases "loopBody n s")
      case None
      then show ?thesis using Suc.prems True by simp
    next
      case (Some it)
      show ?thesis
      proof (cases it)
        case (Continue s1)
        then have "solveLoop fuel n s1 = Some res" using Suc.prems True Some by simp
        then have "solveLoop (fuel + k) n s1 = Some res" by (rule Suc.IH)
        then show ?thesis using True Some Continue by simp
      next
        case (ReturnFalse s1)
        then show ?thesis using Suc.prems True Some by simp
      qed
    qed
  qed
qed

lemma cell_in_rows:
  assumes "length sq = nat n" "\<forall>rw \<in> set sq. length rw = nat n" "inGrid n i j"
  shows "sq ! nat i \<in> set sq \<and> sq ! nat i ! nat j \<in> set (sq ! nat i)"
proof -
  have "nat i < length sq" using assms(1,3) unfolding inGrid_def by auto
  then have a: "sq ! nat i \<in> set sq" by simp
  then have "length (sq ! nat i) = nat n" using assms(2) by blast
  then have "nat j < length (sq ! nat i)" using assms(3) unfolding inGrid_def by auto
  then show ?thesis using a by simp
qed

lemma readLatinNode_frame_ok:
  assumes "readLatinNode n grid = Some node"
  shows "frame_ok n node node \<and> square node = grid \<and> row node = 0 \<and> col node = 0
         \<and> moves node = replicate (nat n) 1 \<and> size_n node = n"
proof -
  have c: "0 \<le> n" "length grid = nat n" "\<forall>rw \<in> set grid. length rw = nat n"
      "\<forall>rw \<in> set grid. \<forall>x \<in> set rw. - n \<le> x \<and> x \<le> n"
    and node: "node = (initNode n)\<lparr>square := grid\<rparr>"
    using assms unfolding readLatinNode_def by (auto split: if_splits)
  have wf: "wf_node n node" using c node unfolding wf_node_def initNode_def by simp
  have fb: "filledBefore n node (row node) (col node)"
    unfolding filledBefore_def inGrid_def node initNode_def by auto
  have rg: "inRange n node"
    unfolding inRange_def
  proof (intro allI impI)
    fix i j assume g: "inGrid n i j"
    from cell_in_rows [OF c(2,3) g] have "\<forall>x \<in> set (grid ! nat i). - n \<le> x \<and> x \<le> n"
        and "grid ! nat i ! nat j \<in> set (grid ! nat i)"
      using c(4) by blast+
    then have "- n \<le> grid ! nat i ! nat j \<and> grid ! nat i ! nat j \<le> n" by blast
    then show "- n \<le> cell node i j \<and> cell node i j \<le> n"
      unfolding cell_def node by simp
  qed
  show ?thesis
    using wf fb rg unfolding frame_ok_def keepsFilled_def
    by (simp add: node initNode_def)
qed

lemma solverEntry_inv:
  assumes "readLatinNode n grid = Some node"
  shows "\<exists>st r c. findNextEmptyCell node = (st, r, c)
     \<and> solverEntry (initialStack node)
         = Some (n, \<lparr>stack = \<lparr>top_s = [node], size_s = 1\<rparr>, newNode = node, rowv = r, colv = c,
                     pushCounter = 0, popCounter = 0, stepCounter = 1\<rparr>)
     \<and> solver_inv n node \<lparr>stack = \<lparr>top_s = [node], size_s = 1\<rparr>, newNode = node,
                           rowv = r, colv = c,
                           pushCounter = 0, popCounter = 0, stepCounter = 1\<rparr>"
proof -
  from readLatinNode_frame_ok [OF assms] have ok: "frame_ok n node node" and sz: "size_n node = n"
    by auto
  then have wf: "wf_node n node" unfolding frame_ok_def by simp
  obtain st r c where f: "findNextEmptyCell node = (st, r, c)"
    by (cases "findNextEmptyCell node") auto
  have st: "initialStack node = \<lparr>top_s = [node], size_s = 1\<rparr>"
    unfolding initialStack_def push_def initStack_def using cloneNode_wf [OF wf]
    by (simp add: Let_def)
  have "solverEntry (initialStack node)
         = Some (n, \<lparr>stack = \<lparr>top_s = [node], size_s = 1\<rparr>, newNode = node, rowv = r, colv = c,
                     pushCounter = 0, popCounter = 0, stepCounter = 1\<rparr>)"
    unfolding solverEntry_def st using cloneNode_wf [OF wf] f sz by simp
  moreover have "solver_inv n node \<lparr>stack = \<lparr>top_s = [node], size_s = 1\<rparr>, newNode = node,
                           rowv = r, colv = c,
                           pushCounter = 0, popCounter = 0, stepCounter = 1\<rparr>"
    unfolding solver_inv_def using ok f by simp
  ultimately show ?thesis using f by blast
qed

lemma solver_inv_exit:
  assumes inv: "solver_inv n n0 s" and ex: "rowv s = -1 \<or> colv s = -1"
  shows "\<exists>f rest. top_s (stack s) = f # rest \<and> frame_ok n n0 f \<and> complete n f"
proof -
  obtain f rest where fs: "top_s (stack s) = f # rest"
    using inv unfolding solver_inv_def by (cases "top_s (stack s)") auto
  have nn: "newNode s = f" using inv fs unfolding solver_inv_def by simp
  have ok: "frame_ok n n0 f" using inv fs unfolding solver_inv_def by simp
  then have wf: "wf_node n f" and pre: "filledBefore n f (row f) (col f)"
    unfolding frame_ok_def by auto
  obtain st where fnd: "findNextEmptyCell f = (st, rowv s, colv s)"
    using inv nn unfolding solver_inv_def by auto
  from findNextEmptyCell_cases [OF wf pre fnd] ex have "complete n f"
    unfolding inGrid_def by auto
  then show ?thesis using fs ok by blast
qed

lemma complete_emptyCells:
  assumes wf: "wf_node n f"
  shows "complete n f \<longleftrightarrow> emptyCells (square f) = 0"
proof
  assume c: "complete n f"
  have "\<forall>x \<in> set (concat (square f)). x \<noteq> 0"
  proof
    fix x assume "x \<in> set (concat (square f))"
    then obtain rw where rw: "rw \<in> set (square f)" "x \<in> set rw" by auto
    then obtain i where i: "i < length (square f)" "rw = square f ! i"
      by (auto simp: in_set_conv_nth)
    from rw(2) obtain j where j: "j < length rw" "x = rw ! j"
      by (auto simp: in_set_conv_nth)
    have "length rw = nat n" "length (square f) = nat n"
      using wf rw(1) unfolding wf_node_def by auto
    then have "inGrid n (int i) (int j)" using i j unfolding inGrid_def by auto
    then have "cell f (int i) (int j) \<noteq> 0" using c unfolding complete_def by blast
    then show "x \<noteq> 0" using i j unfolding cell_def by simp
  qed
  then have "filter (\<lambda>x. x = 0) (concat (square f)) = []"
    by (simp add: filter_empty_conv)
  then show "emptyCells (square f) = 0" unfolding emptyCells_def by simp
next
  assume "emptyCells (square f) = 0"
  then have nz: "\<forall>x \<in> set (concat (square f)). x \<noteq> 0"
    unfolding emptyCells_def by (simp add: filter_empty_conv)
  show "complete n f"
    unfolding complete_def
  proof (intro allI impI)
    fix i j assume g: "inGrid n i j"
    have "length (square f) = nat n" "\<forall>rw \<in> set (square f). length rw = nat n"
      using wf unfolding wf_node_def by auto
    from cell_in_rows [OF this g] have "cell f i j \<in> set (concat (square f))"
      unfolding cell_def by auto
    then show "cell f i j \<noteq> 0" using nz by blast
  qed
qed

subsection \<open>The scan order of findNextEmptyCell\<close>

lemma find_append_list:
  "List.find P (xs @ ys) = (case List.find P xs of Some x \<Rightarrow> Some x | None \<Rightarrow> List.find P ys)"
  by (induction xs) auto

lemma scanRow_find:
  "scanRow node i j
     = map_option snd (List.find (\<lambda>(a, b). cell node a b = 0) (map (Pair i) [j..size_n node - 1]))"
proof (induction node i j rule: scanRow.induct)
  case (1 node i j)
  show ?case
  proof (cases "j < size_n node")
    case False
    then show ?thesis by (subst scanRow.simps) simp
  next
    case True
    then have u: "[j..size_n node - 1] = j # [j + 1..size_n node - 1]"
      by (simp add: upto_rec1)
    show ?thesis
    proof (cases "cell node i j = 0")
      case z: True
      then show ?thesis using True u by (subst scanRow.simps) simp
    next
      case False
      then have "scanRow node i j = scanRow node i (j + 1)"
        using True by (subst scanRow.simps) simp
      then show ?thesis using "1.IH" True False u by simp
    qed
  qed
qed

lemma scanOrder_step:
  "i < n \<Longrightarrow> scanOrder n i lc = map (Pair i) [lc..n - 1] @ scanOrder n (i + 1) 0"
proof -
  assume i: "i < n"
  show ?thesis
  proof (cases "i + 1 < n")
    case True
    then have "[i + 1..n - 1] = (i + 1) # [i + 1 + 1..n - 1]" by (simp add: upto_rec1)
    then show ?thesis using i True unfolding scanOrder_def by simp
  next
    case False
    then show ?thesis using i unfolding scanOrder_def by simp
  qed
qed

lemma scanRows_find:
  "scanRows node i lc
     = (case List.find (\<lambda>(a, b). cell node a b = 0) (scanOrder (size_n node) i lc) of
          Some (a, b) \<Rightarrow> (EXIT_SUCCESS, a, b)
        | None \<Rightarrow> (EXIT_FAILURE, -1, -1))"
proof (induction node i lc rule: scanRows.induct)
  case (1 node i lc)
  show ?case
  proof (cases "i < size_n node")
    case False
    then show ?thesis by (subst scanRows.simps) (simp add: scanOrder_def)
  next
    case True
    note so = scanOrder_step [OF True, of lc]
    show ?thesis
    proof (cases "List.find (\<lambda>(a, b). cell node a b = 0) (map (Pair i) [lc..size_n node - 1])")
      case None
      then have sr: "scanRow node i lc = None" by (simp add: scanRow_find)
      then have "scanRows node i lc = scanRows node (i + 1) 0"
        using True by (subst scanRows.simps) simp
      then show ?thesis using "1.IH" [OF True sr] so None by (simp add: find_append_list)
    next
      case (Some p)
      then have "p \<in> set (map (Pair i) [lc..size_n node - 1])"
        by (auto simp: find_Some_iff in_set_conv_nth)
      then obtain j where p: "p = (i, j)" by auto
      then have sr: "scanRow node i lc = Some j" using Some by (simp add: scanRow_find)
      then have "scanRows node i lc = (EXIT_SUCCESS, i, j)"
        using True by (subst scanRows.simps) simp
      then show ?thesis using so Some p by (simp add: find_append_list)
    qed
  qed
qed

subsection \<open>Results of a run\<close>

lemma solveLatinSquare_result:
  assumes "solverEntry stk = Some (m, s0)" "solveLoop fuel m s0 = Some (solved, s)"
  shows "solveLatinSquare fuel stk
           = Some \<lparr>ret = solved, stack_after = (if solved then None else Some (stack s)),
                   pushNum = pushCounter s, popNum = popCounter s\<rparr>"
  unfolding solveLatinSquare_def using assms by (simp add: freeStack_def)

lemma entry_inv:
  assumes "readLatinNode n grid = Some node" "solverEntry (initialStack node) = Some (m, s0)"
  shows "m = n \<and> solver_inv n node s0 \<and> stack s0 = \<lparr>top_s = [node], size_s = 1\<rparr>
         \<and> pushCounter s0 = 0 \<and> popCounter s0 = 0 \<and> stepCounter s0 = 1 \<and> newNode s0 = node"
  using solverEntry_inv [OF assms(1)] assms(2) by auto

lemma latin_line:
  fixes g :: "int \<Rightarrow> int"
  assumes inj: "\<And>j j'. 0 \<le> j \<Longrightarrow> j < n \<Longrightarrow> 0 \<le> j' \<Longrightarrow> j' < n \<Longrightarrow> j \<noteq> j' \<Longrightarrow> g j \<noteq> g j'"
    and rng: "\<And>j. 0 \<le> j \<Longrightarrow> j < n \<Longrightarrow> 1 \<le> g j \<and> g j \<le> n"
    and v: "1 \<le> v" "v \<le> n"
  shows "\<exists>!j. 0 \<le> j \<and> j < n \<and> g j = v"
proof -
  have io: "inj_on g {0..n - 1}" unfolding inj_on_def using inj by fastforce
  have sub: "g ` {0..n - 1} \<subseteq> {1..n}" using rng by fastforce
  have "card (g ` {0..n - 1}) = card {0..n - 1}" using io by (rule card_image)
  also have "\<dots> = card {1..n}" by simp
  finally have "g ` {0..n - 1} = {1..n}" using sub by (simp add: card_subset_eq)
  then have "v \<in> g ` {0..n - 1}" using v by simp
  then obtain j where j: "0 \<le> j" "j < n" "g j = v" by auto
  show ?thesis
  proof (rule ex1I [of _ j])
    show "0 \<le> j \<and> j < n \<and> g j = v" using j by simp
  next
    fix j' assume "0 \<le> j' \<and> j' < n \<and> g j' = v"
    then show "j' = j" using inj [of j j'] j by auto
  qed
qed

lemma complete_latin:
  assumes c: "complete n f" and rg: "inRange n f" and nr: "noRepeat n f"
    and i: "0 \<le> i" "i < n" and v: "1 \<le> v" "v \<le> n"
  shows "(\<exists>!j. 0 \<le> j \<and> j < n \<and> \<bar>cell f i j\<bar> = v) \<and> (\<exists>!j. 0 \<le> j \<and> j < n \<and> \<bar>cell f j i\<bar> = v)"
proof
  show "\<exists>!j. 0 \<le> j \<and> j < n \<and> \<bar>cell f i j\<bar> = v"
  proof (rule latin_line [OF _ _ v])
    fix j j' assume "0 \<le> j" "j < n" "0 \<le> j'" "j' < n" "j \<noteq> j'"
    then have "inGrid n i j \<and> inGrid n i j' \<and> j \<noteq> j'" using i unfolding inGrid_def by simp
    moreover from this have "cell f i j \<noteq> 0" using c unfolding complete_def by blast
    ultimately show "\<bar>cell f i j\<bar> \<noteq> \<bar>cell f i j'\<bar>" using nr unfolding noRepeat_iff by blast
  next
    fix j assume "0 \<le> j" "j < n"
    then have g: "inGrid n i j" using i unfolding inGrid_def by simp
    then have "cell f i j \<noteq> 0" "- n \<le> cell f i j \<and> cell f i j \<le> n"
      using c rg unfolding complete_def inRange_def by blast+
    then show "1 \<le> \<bar>cell f i j\<bar> \<and> \<bar>cell f i j\<bar> \<le> n" by linarith
  qed
next
  show "\<exists>!j. 0 \<le> j \<and> j < n \<and> \<bar>cell f j i\<bar> = v"
  proof (rule latin_line [OF _ _ v])
    fix j j' assume "0 \<le> j" "j < n" "0 \<le> j'" "j' < n" "j \<noteq> j'"
    then have "inGrid n j i \<and> inGrid n j' i \<and> j \<noteq> j'" using i unfolding inGrid_def by simp
    moreover from this have "cell f j i \<noteq> 0" using c unfolding complete_def by blast
    ultimately show "\<bar>cell f j i\<bar> \<noteq> \<bar>cell f j' i\<bar>" using nr unfolding noRepeat_iff by blast
  next
    fix j assume "0 \<le> j" "j < n"
    then have g: "inGrid n j i" using i unfolding inGrid_def by simp
    then have "cell f j i \<noteq> 0" "- n \<le> cell f j i \<and> cell f j i \<le> n"
      using c rg unfolding complete_def inRange_def by blast+
    then show "1 \<le> \<bar>cell f j i\<bar> \<and> \<bar>cell f j i\<bar> \<le> n" by linarith
  qed
qed

subsection \<open>Grids without an empty cell\<close>

lemma full_grid_entry:
  assumes "readLatinNode n grid = Some node" "emptyCells grid = 0"
  shows "solverEntry (initialStack node)
           = Some (n, \<lparr>stack = \<lparr>top_s = [node], size_s = 1\<rparr>, newNode = node,
                       rowv = -1, colv = -1,
                       pushCounter = 0, popCounter = 0, stepCounter = 1\<rparr>)"
proof -
  from readLatinNode_frame_ok [OF assms(1)] have ok: "frame_ok n node node"
    and grid: "square node = grid" by auto
  then have wf: "wf_node n node" and pre: "filledBefore n node (row node) (col node)"
    unfolding frame_ok_def by auto
  have c: "complete n node" using complete_emptyCells [OF wf] assms(2) grid by simp
  from solverEntry_inv [OF assms(1)] obtain st r c' where
    f: "findNextEmptyCell node = (st, r, c')" and
    e: "solverEntry (initialStack node)
         = Some (n, \<lparr>stack = \<lparr>top_s = [node], size_s = 1\<rparr>, newNode = node, rowv = r, colv = c',
                     pushCounter = 0, popCounter = 0, stepCounter = 1\<rparr>)"
    by blast
  from findNextEmptyCell_cases [OF wf pre f] c have "r = -1 \<and> c' = -1"
    unfolding complete_def by auto
  then show ?thesis using e by simp
qed

subsection \<open>Termination of the loop\<close>

lemma validMoves_le: "validMoves f \<le> length (moves f)"
  unfolding validMoves_def by simp

lemma validMoves_clear:
  assumes "i < length (moves b)" "moves b ! i = 1"
  shows "validMoves (b\<lparr>moves := (moves b)[i := 0]\<rparr>) < validMoves b"
proof -
  have a: "(moves b)[i := 0] = take i (moves b) @ 0 # drop (Suc i) (moves b)"
    using assms(1) by (rule upd_conv_take_nth_drop)
  have b: "moves b = take i (moves b) @ moves b ! i # drop (Suc i) (moves b)"
    using assms(1) by (rule id_take_nth_drop)
  have "validMoves b
      = length (filter (\<lambda>x. x = 1) (take i (moves b) @ moves b ! i # drop (Suc i) (moves b)))"
    unfolding validMoves_def using b by simp
  then show ?thesis unfolding validMoves_def using a assms(2) by simp
qed

lemma stackWeight_push:
  assumes "length fs \<le> k" "validMoves new \<le> m"
  shows "(stackWeight k m (new # fs), stackWeight k m fs) \<in> lex less_than"
proof -
  have "k + 1 - length fs = Suc (k - length fs)" using assms(1) by simp
  then have old: "stackWeight k m fs
      = map validMoves (rev fs) @ (m + 1) # replicate (k - length fs) (m + 1)"
    unfolding stackWeight_def by simp
  have new: "stackWeight k m (new # fs)
      = map validMoves (rev fs) @ validMoves new # replicate (k - length fs) (m + 1)"
    unfolding stackWeight_def by simp
  have "(validMoves new # replicate (k - length fs) (m + 1),
         (m + 1) # replicate (k - length fs) (m + 1)) \<in> lex less_than"
    using assms(2) by simp
  then show ?thesis unfolding old new by (rule lex_append_leftI)
qed

lemma stackWeight_pop:
  assumes "validMoves b' < validMoves b" "length (a # b # rest) \<le> k + 1"
  shows "(stackWeight k m (b' # rest), stackWeight k m (a # b # rest)) \<in> lex less_than"
proof -
  have old: "stackWeight k m (a # b # rest)
      = map validMoves (rev rest)
        @ validMoves b # validMoves a # replicate (k + 1 - length (a # b # rest)) (m + 1)"
    unfolding stackWeight_def by simp
  have new: "stackWeight k m (b' # rest)
      = map validMoves (rev rest) @ validMoves b' # replicate (k + 1 - length (b' # rest)) (m + 1)"
    unfolding stackWeight_def by simp
  have len: "k + 1 - length (b' # rest) = Suc (k + 1 - length (a # b # rest))"
    using assms(2) by simp
  have "(validMoves b' # replicate (k + 1 - length (b' # rest)) (m + 1),
         validMoves b # validMoves a # replicate (k + 1 - length (a # b # rest)) (m + 1))
        \<in> lex less_than"
    using assms(1) len by simp
  then show ?thesis unfolding old new by (rule lex_append_leftI)
qed

lemma loopBody_decreases:
  assumes inv: "solver_inv n n0 s" and run: "rowv s \<noteq> -1 \<and> colv s \<noteq> -1"
    and lb: "loopBody n s = Some (Continue s')"
  shows "(stackWeight (emptyCells (square n0)) (nat n) (top_s (stack s')),
          stackWeight (emptyCells (square n0)) (nat n) (top_s (stack s))) \<in> lex less_than"
proof -
  let ?k = "emptyCells (square n0)"
  obtain f rest0 where fs: "top_s (stack s) = f # rest0"
    using inv unfolding solver_inv_def by (cases "top_s (stack s)") auto
  have nn: "newNode s = f" using inv fs unfolding solver_inv_def by simp
  have ok: "frame_ok n n0 f" using inv fs unfolding solver_inv_def by simp
  then have wf: "wf_node n f" and pre: "filledBefore n f (row f) (col f)"
    unfolding frame_ok_def by auto
  have depth: "emptyCells (square f) + length (top_s (stack s)) = ?k + 1"
    using chain_emptyCells [of n "top_s (stack s)"] inv fs unfolding solver_inv_def by simp
  obtain pushed stk1 nn1 where
    tv: "tryValues n (stack s) (newNode s) (rowv s) (colv s) 1 = (pushed, stk1, nn1)"
    by (cases "tryValues n (stack s) (newNode s) (rowv s) (colv s) 1") auto
  show ?thesis
  proof (cases pushed)
    case True
    then have "tryValues n (stack s) (newNode s) (rowv s) (colv s) 1 = (True, stk1, nn1)"
      using tv by simp
    from loopBody_push [OF inv this run] lb
    have inv': "solver_inv n n0 s'" and top': "top_s (stack s') = nn1 # top_s (stack s)"
      by auto
    have "frame_ok n n0 nn1" using inv' top' unfolding solver_inv_def by simp
    then have "length (moves nn1) = nat n" unfolding frame_ok_def wf_node_def by simp
    then have m: "validMoves nn1 \<le> nat n" using validMoves_le [of nn1] by simp
    obtain st where fnd: "findNextEmptyCell f = (st, rowv s, colv s)"
      using inv nn unfolding solver_inv_def by auto
    from findNextEmptyCell_cases [OF wf pre fnd] run
    have "inGrid n (rowv s) (colv s)" "cell f (rowv s) (colv s) = 0" by auto
    then have "\<not> complete n f" unfolding complete_def by blast
    then have "emptyCells (square f) \<noteq> 0" using complete_emptyCells [OF wf] by simp
    then have "length (top_s (stack s)) \<le> ?k" using depth by simp
    from stackWeight_push [OF this m] show ?thesis using top' by simp
  next
    case False
    then have "tryValues n (stack s) (newNode s) (rowv s) (colv s) 1 = (False, stk1, nn1)"
      using tv by simp
    from loopBody_pop [OF inv this] lb obtain a b rest where
      top: "top_s (stack s) = a # b # rest"
      and idx: "nat (cell a (row a) (col a) - 1) < length (moves b)"
        "moves b ! nat (cell a (row a) (col a) - 1) = 1"
      and top': "top_s (stack s')
                = b\<lparr>moves := (moves b)[nat (cell a (row a) (col a) - 1) := 0]\<rparr> # rest"
      by auto
    have "length (a # b # rest) \<le> ?k + 1" using depth top by simp
    from stackWeight_pop [OF validMoves_clear [OF idx] this] show ?thesis
      using top top' by simp
  qed
qed

lemma solveLoop_terminates:
  "solver_inv n n0 s \<Longrightarrow> \<exists>fuel res. solveLoop fuel n s = Some res"
proof -
  let ?w = "\<lambda>s. stackWeight (emptyCells (square n0)) (nat n) (top_s (stack s))"
  have "wf (inv_image (lex less_than) ?w)" by (intro wf_inv_image wf_lex wf_less_than)
  then show "solver_inv n n0 s \<Longrightarrow> \<exists>fuel res. solveLoop fuel n s = Some res"
  proof (induction s rule: wf_induct_rule)
    case (less s)
    show ?case
    proof (cases "rowv s \<noteq> -1 \<and> colv s \<noteq> -1")
      case False
      then have "solveLoop 0 n s = Some (True, s)" by auto
      then show ?thesis by blast
    next
      case True
      from loopBody_inv [OF less.prems True] show ?thesis
      proof
        assume "\<exists>s'. loopBody n s = Some (Continue s') \<and> solver_inv n n0 s'"
        then obtain s' where s': "loopBody n s = Some (Continue s')" "solver_inv n n0 s'"
          by blast
        from loopBody_decreases [OF less.prems True s'(1)]
        have "(s', s) \<in> inv_image (lex less_than) ?w" by simp
        from less.IH [OF this s'(2)] obtain fuel res where "solveLoop fuel n s' = Some res"
          by blast
        then have "solveLoop (Suc fuel) n s = Some res" using True s'(1) by simp
        then show ?thesis by blast
      next
        assume "loopBody n s = Some (ReturnFalse (s\<lparr>stack := \<lparr>top_s = [], size_s = 0\<rparr>\<rparr>))"
        then have "solveLoop (Suc 0) n s = Some (False, s\<lparr>stack := \<lparr>top_s = [], size_s = 0\<rparr>\<rparr>)"
          using True by simp
        then show ?thesis by blast
      qed
    qed
  qed
qed

section \<open>The claims\<close>

subsection \<open>C1: what the caller has after a solve\<close>

text \<open>
  C1, as amended. For a grid the file reader accepts: when the loop of
  \<^verbatim>\<open>solveLatinSquare\<close> ends in the solved state, the top frame of the stack at that moment
  has no empty cell; when it ends in \<^verbatim>\<open>return false\<close>, the stack holds no frame. In the
  first case \<^verbatim>\<open>solveLatinSquare\<close> then calls \<^verbatim>\<open>freeStack\<close> and returns only the flag
  \<open>True\<close>: the caller is left without the stack and so without the solved grid. In the
  second case it returns \<open>False\<close> and leaves the emptied stack to the caller.
\<close>

theorem solved_top_complete_then_freed:
  assumes "readLatinNode n grid = Some node"
    and "solverEntry (initialStack node) = Some (m, s0)"
    and "solveLoop fuel m s0 = Some (solved, s)"
  shows "(solved \<longrightarrow> (\<exists>f rest. top_s (stack s) = f # rest \<and> complete n f))
       \<and> (\<not> solved \<longrightarrow> stack s = \<lparr>top_s = [], size_s = 0\<rparr>)
       \<and> solveLatinSquare fuel (initialStack node)
           = Some \<lparr>ret = solved, stack_after = (if solved then None else Some (stack s)),
                   pushNum = pushCounter s, popNum = popCounter s\<rparr>"
proof -
  from entry_inv [OF assms(1,2)] have m: "m = n" and inv0: "solver_inv n node s0" by auto
  from solveLoop_inv [OF inv0] assms(3) m
  have fin: "if solved then solver_inv n node s \<and> (rowv s = -1 \<or> colv s = -1)
      else stack s = \<lparr>top_s = [], size_s = 0\<rparr>" by blast
  have "solved \<longrightarrow> (\<exists>f rest. top_s (stack s) = f # rest \<and> complete n f)"
    using fin solver_inv_exit [of n node s] by (auto split: if_splits)
  moreover have "\<not> solved \<longrightarrow> stack s = \<lparr>top_s = [], size_s = 0\<rparr>"
    using fin by (auto split: if_splits)
  ultimately show ?thesis using solveLatinSquare_result [OF assms(2,3)] by blast
qed

text \<open>Both cases occur: the puzzle \<open>[[0, 0], [0, -1]]\<close> is solved, and
  \<open>[[-1, -1], [0, 0]]\<close> is not solvable.\<close>

theorem solved_top_complete_then_freed_witness:
  "(\<exists>node s0 s. readLatinNode 2 [[0, 0], [0, -1]] = Some node
       \<and> solverEntry (initialStack node) = Some (2, s0)
       \<and> solveLoop 3 2 s0 = Some (True, s)
       \<and> (\<exists>f rest. top_s (stack s) = f # rest \<and> complete 2 f)
       \<and> solveLatinSquare 3 (initialStack node)
            = Some \<lparr>ret = True, stack_after = None,
                    pushNum = pushCounter s, popNum = popCounter s\<rparr>)
   \<and> (\<exists>node s0 s. readLatinNode 2 [[-1, -1], [0, 0]] = Some node
       \<and> solverEntry (initialStack node) = Some (2, s0)
       \<and> solveLoop 3 2 s0 = Some (False, s)
       \<and> stack s = \<lparr>top_s = [], size_s = 0\<rparr>
       \<and> solveLatinSquare 3 (initialStack node)
            = Some \<lparr>ret = False, stack_after = Some (stack s),
                    pushNum = pushCounter s, popNum = popCounter s\<rparr>)"
proof
  let ?node = "the (readLatinNode 2 [[0, 0], [0, -1]])"
  let ?ent = "snd (the (solverEntry (initialStack ?node)))"
  let ?fin = "snd (the (solveLoop 3 2 ?ent))"
  have h1: "readLatinNode 2 [[0, 0], [0, -1]] = Some ?node" by code_simp
  have h2: "solverEntry (initialStack ?node) = Some (2, ?ent)" by code_simp
  have h3: "solveLoop 3 2 ?ent = Some (True, ?fin)" by code_simp
  from solved_top_complete_then_freed [OF h1 h2 h3]
  have c: "(\<exists>f rest. top_s (stack ?fin) = f # rest \<and> complete 2 f)
       \<and> solveLatinSquare 3 (initialStack ?node)
            = Some \<lparr>ret = True, stack_after = None,
                    pushNum = pushCounter ?fin, popNum = popCounter ?fin\<rparr>"
    by (simp only: if_True if_False simp_thms)
  show "\<exists>node s0 s. readLatinNode 2 [[0, 0], [0, -1]] = Some node
       \<and> solverEntry (initialStack node) = Some (2, s0)
       \<and> solveLoop 3 2 s0 = Some (True, s)
       \<and> (\<exists>f rest. top_s (stack s) = f # rest \<and> complete 2 f)
       \<and> solveLatinSquare 3 (initialStack node)
            = Some \<lparr>ret = True, stack_after = None,
                    pushNum = pushCounter s, popNum = popCounter s\<rparr>"
    by (rule exI [of _ ?node], rule exI [of _ ?ent], rule exI [of _ ?fin], intro conjI)
       (rule h1 h2 h3 c [THEN conjunct1] c [THEN conjunct2])+
next
  let ?node = "the (readLatinNode 2 [[-1, -1], [0, 0]])"
  let ?ent = "snd (the (solverEntry (initialStack ?node)))"
  let ?fin = "snd (the (solveLoop 3 2 ?ent))"
  have h1: "readLatinNode 2 [[-1, -1], [0, 0]] = Some ?node" by code_simp
  have h2: "solverEntry (initialStack ?node) = Some (2, ?ent)" by code_simp
  have h3: "solveLoop 3 2 ?ent = Some (False, ?fin)" by code_simp
  from solved_top_complete_then_freed [OF h1 h2 h3]
  have c: "stack ?fin = \<lparr>top_s = [], size_s = 0\<rparr>
       \<and> solveLatinSquare 3 (initialStack ?node)
            = Some \<lparr>ret = False, stack_after = Some (stack ?fin),
                    pushNum = pushCounter ?fin, popNum = popCounter ?fin\<rparr>"
    by (simp only: if_True if_False simp_thms)
  show "\<exists>node s0 s. readLatinNode 2 [[-1, -1], [0, 0]] = Some node
       \<and> solverEntry (initialStack node) = Some (2, s0)
       \<and> solveLoop 3 2 s0 = Some (False, s)
       \<and> stack s = \<lparr>top_s = [], size_s = 0\<rparr>
       \<and> solveLatinSquare 3 (initialStack node)
            = Some \<lparr>ret = False, stack_after = Some (stack s),
                    pushNum = pushCounter s, popNum = popCounter s\<rparr>"
    by (rule exI [of _ ?node], rule exI [of _ ?ent], rule exI [of _ ?fin], intro conjI)
       (rule h1 h2 h3 c [THEN conjunct1] c [THEN conjunct2])+
qed

text \<open>
  C1 as stated says that the solved grid is still available to the caller after
  \<^verbatim>\<open>solveLatinSquare\<close> has returned true. On the puzzle \<open>[[1, 0], [0, 1]]\<close> the function
  returns true and the caller's stack has been released.
\<close>

theorem solved_grid_not_returned:
  "readLatinNode 2 [[1, 0], [0, 1]]
     = Some \<lparr>square = [[1, 0], [0, 1]], size_n = 2, row = 0, col = 0, moves = [1, 1]\<rparr>
   \<and> solveLatinSquare 2
         (initialStack \<lparr>square = [[1, 0], [0, 1]], size_n = 2, row = 0, col = 0, moves = [1, 1]\<rparr>)
       = Some \<lparr>ret = True, stack_after = None, pushNum = 2, popNum = 0\<rparr>"
  by code_simp

subsection \<open>C2: a solved grid is a Latin square\<close>

text \<open>
  C2, as amended. For a grid the file reader accepts in which no row and no column
  holds the same magnitude twice among its filled cells: when the solver's loop ends in
  the solved state, every row and every column of the top frame contains each value of
  \<open>1..N\<close>, by magnitude, exactly once.
\<close>

theorem solved_grid_is_latin:
  assumes "readLatinNode n grid = Some node"
    and "noRepeat n node"
    and "solverEntry (initialStack node) = Some (m, s0)"
    and "solveLoop fuel m s0 = Some (True, s)"
  shows "\<exists>f rest. top_s (stack s) = f # rest
           \<and> (\<forall>i v. 0 \<le> i \<and> i < n \<and> 1 \<le> v \<and> v \<le> n
                 \<longrightarrow> (\<exists>!j. 0 \<le> j \<and> j < n \<and> \<bar>cell f i j\<bar> = v)
                   \<and> (\<exists>!j. 0 \<le> j \<and> j < n \<and> \<bar>cell f j i\<bar> = v))"
proof -
  from entry_inv [OF assms(1,3)] have m: "m = n" and inv0: "solver_inv n node s0" by auto
  from solveLoop_inv [OF inv0] assms(4) m
  have "solver_inv n node s \<and> (rowv s = -1 \<or> colv s = -1)" by fastforce
  from solver_inv_exit [of n node s] this obtain f rest where
    f: "top_s (stack s) = f # rest" "frame_ok n node f" "complete n f" by blast
  then have "inRange n f" "noRepeat n f" using assms(2) unfolding frame_ok_def by auto
  from complete_latin [OF f(3) this] f(1) show ?thesis by blast
qed

theorem solved_grid_is_latin_witness:
  "\<exists>node s0 s. readLatinNode 3 [[0, 0, 0], [-2, 0, 0], [0, 0, 0]] = Some node
     \<and> noRepeat 3 node
     \<and> solverEntry (initialStack node) = Some (3, s0)
     \<and> solveLoop 10 3 s0 = Some (True, s)
     \<and> (\<exists>f rest. top_s (stack s) = f # rest
           \<and> (\<forall>i v. 0 \<le> i \<and> i < 3 \<and> 1 \<le> v \<and> v \<le> 3
                 \<longrightarrow> (\<exists>!j. 0 \<le> j \<and> j < 3 \<and> \<bar>cell f i j\<bar> = v)
                   \<and> (\<exists>!j. 0 \<le> j \<and> j < 3 \<and> \<bar>cell f j i\<bar> = v)))"
proof -
  let ?node = "the (readLatinNode 3 [[0, 0, 0], [-2, 0, 0], [0, 0, 0]])"
  let ?ent = "snd (the (solverEntry (initialStack ?node)))"
  let ?fin = "snd (the (solveLoop 10 3 ?ent))"
  have h1: "readLatinNode 3 [[0, 0, 0], [-2, 0, 0], [0, 0, 0]] = Some ?node" by code_simp
  have h2: "noRepeat 3 ?node" by code_simp
  have h3: "solverEntry (initialStack ?node) = Some (3, ?ent)" by code_simp
  have h4: "solveLoop 10 3 ?ent = Some (True, ?fin)" by code_simp
  note r = solved_grid_is_latin [OF h1 h2 h3 h4]
  show ?thesis
    by (rule exI [of _ ?node], rule exI [of _ ?ent], rule exI [of _ ?fin], intro conjI)
       (rule h1 h2 h3 h4 r)+
qed

text \<open>
  C2 as stated covers every input grid. The grid \<open>[[1, 1], [1, 1]]\<close> is accepted by the
  reader and has no empty cell, so the loop ends at once in the solved state with this
  grid on top of the stack: its first row holds the value \<open>1\<close> twice.
\<close>

theorem repeated_clue_reported_solved:
  "readLatinNode 2 [[1, 1], [1, 1]]
     = Some \<lparr>square = [[1, 1], [1, 1]], size_n = 2, row = 0, col = 0, moves = [1, 1]\<rparr>
   \<and> solverEntry
         (initialStack \<lparr>square = [[1, 1], [1, 1]], size_n = 2, row = 0, col = 0, moves = [1, 1]\<rparr>)
       = Some (2, \<lparr>stack = \<lparr>top_s = [\<lparr>square = [[1, 1], [1, 1]], size_n = 2, row = 0, col = 0,
                                         moves = [1, 1]\<rparr>], size_s = 1\<rparr>,
                    newNode = \<lparr>square = [[1, 1], [1, 1]], size_n = 2, row = 0, col = 0,
                                moves = [1, 1]\<rparr>,
                    rowv = -1, colv = -1, pushCounter = 0, popCounter = 0, stepCounter = 1\<rparr>)
   \<and> solveLoop 0 2
         \<lparr>stack = \<lparr>top_s = [\<lparr>square = [[1, 1], [1, 1]], size_n = 2, row = 0, col = 0,
                                moves = [1, 1]\<rparr>], size_s = 1\<rparr>,
          newNode = \<lparr>square = [[1, 1], [1, 1]], size_n = 2, row = 0, col = 0, moves = [1, 1]\<rparr>,
          rowv = -1, colv = -1, pushCounter = 0, popCounter = 0, stepCounter = 1\<rparr>
       = Some (True,
           \<lparr>stack = \<lparr>top_s = [\<lparr>square = [[1, 1], [1, 1]], size_n = 2, row = 0, col = 0,
                                  moves = [1, 1]\<rparr>], size_s = 1\<rparr>,
            newNode = \<lparr>square = [[1, 1], [1, 1]], size_n = 2, row = 0, col = 0, moves = [1, 1]\<rparr>,
            rowv = -1, colv = -1, pushCounter = 0, popCounter = 0, stepCounter = 1\<rparr>)
   \<and> \<bar>cell \<lparr>square = [[1, 1], [1, 1]], size_n = 2, row = 0, col = 0, moves = [1, 1]\<rparr> 0 0\<bar> = 1
   \<and> \<bar>cell \<lparr>square = [[1, 1], [1, 1]], size_n = 2, row = 0, col = 0, moves = [1, 1]\<rparr> 0 1\<bar> = 1"
  by code_simp

subsection \<open>C3: filled cells are never written\<close>

text \<open>
  C3. For a grid the file reader accepts: when the solver's loop ends in the solved
  state, every cell that was not empty in the input, a negative clue in particular,
  holds its input value in the top frame; and at every loop head reached during the
  run at which the loop goes on, the cell \<open>(row, col)\<close> of \<^verbatim>\<open>newNode\<close>, the only cell of
  a grid that the iteration may write (through \<^verbatim>\<open>updateNode\<close>), lies in the grid and is
  empty.
\<close>

theorem filled_cells_never_overwritten:
  assumes "readLatinNode n grid = Some node"
    and "solverEntry (initialStack node) = Some (m, s0)"
  shows "(solveLoop fuel m s0 = Some (True, s) \<longrightarrow>
            (\<exists>f rest. top_s (stack s) = f # rest
               \<and> (\<forall>i j. inGrid n i j \<and> cell node i j \<noteq> 0 \<longrightarrow> cell f i j = cell node i j)))
       \<and> (runSteps k m s0 = Some s' \<and> rowv s' \<noteq> -1 \<and> colv s' \<noteq> -1 \<longrightarrow>
            inGrid n (rowv s') (colv s') \<and> cell (newNode s') (rowv s') (colv s') = 0)"
proof -
  from entry_inv [OF assms(1,2)] have m: "m = n" and inv0: "solver_inv n node s0" by auto
  have "\<exists>f rest. top_s (stack s) = f # rest
               \<and> (\<forall>i j. inGrid n i j \<and> cell node i j \<noteq> 0 \<longrightarrow> cell f i j = cell node i j)"
    if "solveLoop fuel m s0 = Some (True, s)"
  proof -
    from solveLoop_inv [OF inv0] that m
    have "solver_inv n node s \<and> (rowv s = -1 \<or> colv s = -1)" by fastforce
    from solver_inv_exit [of n node s] this obtain f rest where
      f: "top_s (stack s) = f # rest" "frame_ok n node f" by blast
    then show ?thesis unfolding frame_ok_def keepsFilled_def by blast
  qed
  moreover have "inGrid n (rowv s') (colv s') \<and> cell (newNode s') (rowv s') (colv s') = 0"
    if "runSteps k m s0 = Some s' \<and> rowv s' \<noteq> -1 \<and> colv s' \<noteq> -1"
  proof -
    from runSteps_inv [OF inv0] that m have inv: "solver_inv n node s'" by blast
    obtain f rest where fs: "top_s (stack s') = f # rest"
      using inv unfolding solver_inv_def by (cases "top_s (stack s')") auto
    have nn: "newNode s' = f" using inv fs unfolding solver_inv_def by simp
    have ok: "frame_ok n node f" using inv fs unfolding solver_inv_def by simp
    then have wf: "wf_node n f" and pre: "filledBefore n f (row f) (col f)"
      unfolding frame_ok_def by auto
    obtain st where fnd: "findNextEmptyCell f = (st, rowv s', colv s')"
      using inv nn unfolding solver_inv_def by auto
    from findNextEmptyCell_cases [OF wf pre fnd] that nn show ?thesis by auto
  qed
  ultimately show ?thesis by blast
qed

theorem filled_cells_never_overwritten_witness:
  "\<exists>node s0 s s' f rest. readLatinNode 2 [[0, 0], [0, -1]] = Some node
     \<and> solverEntry (initialStack node) = Some (2, s0)
     \<and> solveLoop 3 2 s0 = Some (True, s)
     \<and> top_s (stack s) = f # rest
     \<and> inGrid 2 1 1 \<and> cell node 1 1 \<noteq> 0 \<and> cell f 1 1 = cell node 1 1
     \<and> runSteps 2 2 s0 = Some s' \<and> rowv s' \<noteq> -1 \<and> colv s' \<noteq> -1
     \<and> cell (newNode s') (rowv s') (colv s') = 0"
proof -
  let ?node = "the (readLatinNode 2 [[0, 0], [0, -1]])"
  let ?ent = "snd (the (solverEntry (initialStack ?node)))"
  let ?fin = "snd (the (solveLoop 3 2 ?ent))"
  let ?mid = "the (runSteps 2 2 ?ent)"
  have h1: "readLatinNode 2 [[0, 0], [0, -1]] = Some ?node" by code_simp
  have h2: "solverEntry (initialStack ?node) = Some (2, ?ent)" by code_simp
  have h3: "solveLoop 3 2 ?ent = Some (True, ?fin)" by code_simp
  have h4: "runSteps 2 2 ?ent = Some ?mid" by code_simp
  have h5: "rowv ?mid \<noteq> -1 \<and> colv ?mid \<noteq> -1" by code_simp
  have h6: "inGrid 2 1 1 \<and> cell ?node 1 1 \<noteq> 0" by code_simp
  note inst = filled_cells_never_overwritten [OF h1 h2, of 3 ?fin 2 ?mid]
  from inst h3 obtain f rest where f: "top_s (stack ?fin) = f # rest"
    "\<forall>i j. inGrid 2 i j \<and> cell ?node i j \<noteq> 0 \<longrightarrow> cell f i j = cell ?node i j"
    by blast
  have a: "cell f 1 1 = cell ?node 1 1" using f(2) h6 by blast
  have b: "cell (newNode ?mid) (rowv ?mid) (colv ?mid) = 0" using inst h4 h5 by blast
  show ?thesis
    by (rule exI [of _ ?node], rule exI [of _ ?ent], rule exI [of _ ?fin], rule exI [of _ ?mid],
        rule exI [of _ f], rule exI [of _ rest], intro conjI)
       (rule h1 h2 h3 h4 h5 [THEN conjunct1] h5 [THEN conjunct2]
             h6 [THEN conjunct1] h6 [THEN conjunct2] f(1) a b)+
qed

subsection \<open>C4: pushes minus pops\<close>

text \<open>
  C4. For a grid the file reader accepts, with \<open>k\<close> empty cells: when the solver's loop
  ends in the solved state, \<^verbatim>\<open>pushCounter - popCounter = k\<close>. Every iteration of such a
  run either calls \<^verbatim>\<open>push\<close> once and counts it, or calls \<^verbatim>\<open>pop\<close> once and counts it
  (an iteration whose \<^verbatim>\<open>pop\<close> empties the stack returns false instead), so the two
  counters are the numbers of calls: their sum is the number of iterations,
  \<^verbatim>\<open>stepCounter - 1\<close>. The stack then holds \<open>k + 1\<close> frames.
\<close>

theorem push_pop_balance:
  assumes "readLatinNode n grid = Some node"
    and "solverEntry (initialStack node) = Some (m, s0)"
    and "solveLoop fuel m s0 = Some (True, s)"
  shows "pushCounter s - popCounter s = int (emptyCells grid)
       \<and> stepCounter s = pushCounter s + popCounter s + 1
       \<and> size_s (stack s) = int (emptyCells grid) + 1"
proof -
  from entry_inv [OF assms(1,2)] have m: "m = n" and inv0: "solver_inv n node s0" by auto
  have grid: "square node = grid" using readLatinNode_frame_ok [OF assms(1)] by simp
  from solveLoop_inv [OF inv0] assms(3) m
  have inv: "solver_inv n node s" and ex: "rowv s = -1 \<or> colv s = -1" by fastforce+
  from solver_inv_exit [OF inv ex] obtain f rest where
    f: "top_s (stack s) = f # rest" "frame_ok n node f" "complete n f" by blast
  then have "emptyCells (square f) = 0"
    using complete_emptyCells [of n f] unfolding frame_ok_def by blast
  moreover have "emptyCells (square (hd (top_s (stack s)))) + length (top_s (stack s))
      = emptyCells (square (last (top_s (stack s)))) + 1"
    using chain_emptyCells [of n "top_s (stack s)"] inv unfolding solver_inv_def by blast
  ultimately have "length (top_s (stack s)) = emptyCells grid + 1"
    using f(1) inv grid unfolding solver_inv_def by simp
  then show ?thesis using inv unfolding solver_inv_def by simp
qed

theorem push_pop_balance_witness:
  "\<exists>node s0 s. readLatinNode 3 [[0, 0, 0], [-2, 0, 0], [0, 0, 0]] = Some node
     \<and> solverEntry (initialStack node) = Some (3, s0)
     \<and> solveLoop 10 3 s0 = Some (True, s)
     \<and> pushCounter s = 9 \<and> popCounter s = 1
     \<and> emptyCells [[0, 0, 0], [-2, 0, 0], [0, 0, 0]] = 8
     \<and> pushCounter s - popCounter s = int (emptyCells [[0, 0, 0], [-2, 0, 0], [0, 0, 0]])"
proof -
  let ?node = "the (readLatinNode 3 [[0, 0, 0], [-2, 0, 0], [0, 0, 0]])"
  let ?ent = "snd (the (solverEntry (initialStack ?node)))"
  let ?fin = "snd (the (solveLoop 10 3 ?ent))"
  have h1: "readLatinNode 3 [[0, 0, 0], [-2, 0, 0], [0, 0, 0]] = Some ?node" by code_simp
  have h2: "solverEntry (initialStack ?node) = Some (3, ?ent)" by code_simp
  have h3: "solveLoop 10 3 ?ent = Some (True, ?fin)" by code_simp
  have h4: "pushCounter ?fin = 9 \<and> popCounter ?fin = 1" by code_simp
  have h5: "emptyCells [[0, 0, 0], [-2, 0, 0], [0, 0, 0]] = 8" by code_simp
  from push_pop_balance [OF h1 h2 h3]
  have c: "pushCounter ?fin - popCounter ?fin = int (emptyCells [[0, 0, 0], [-2, 0, 0], [0, 0, 0]])"
    by blast
  show ?thesis
    by (rule exI [of _ ?node], rule exI [of _ ?ent], rule exI [of _ ?fin], intro conjI)
       (rule h1 h2 h3 h4 [THEN conjunct1] h4 [THEN conjunct2] h5 c)+
qed

subsection \<open>C5: determinism\<close>

text \<open>
  C5. For a grid the file reader accepts, the solver's loop comes to an end. The outcome
  of the loop and its final state, the stack with the final grid included, are
  determined by the state the loop starts in: two runs from the same state that both
  come to an end, whatever the number of iterations each is allowed, end with the same
  result. The value loop tries the candidates in ascending order: when it pushes, the
  value placed is the least value of \<open>1..N\<close> whose \<^verbatim>\<open>moves\<close> flag is \<open>1\<close> and that
  \<^verbatim>\<open>checkDuplicates\<close> accepts.
\<close>

theorem solver_deterministic:
  assumes "readLatinNode n grid = Some node"
    and "solverEntry (initialStack node) = Some (m, s0)"
  shows "(\<exists>fuel res. solveLoop fuel m s0 = Some res)
       \<and> (solveLoop fuel1 m s = Some r1 \<and> solveLoop fuel2 m s = Some r2 \<longrightarrow> r1 = r2)
       \<and> (tryValues m stk nn r c 1 = (True, stk', nn') \<longrightarrow>
            (\<exists>v. 1 \<le> v \<and> v \<le> m \<and> nn' = updateNode nn r c v
                \<and> moves nn ! nat (v - 1) = 1 \<and> \<not> checkDuplicates nn v r c
                \<and> (\<forall>w. 1 \<le> w \<and> w < v \<longrightarrow>
                       \<not> (moves nn ! nat (w - 1) = 1 \<and> \<not> checkDuplicates nn w r c))))"
proof (intro conjI impI)
  from entry_inv [OF assms] have "solver_inv m node s0" by simp
  then show "\<exists>fuel res. solveLoop fuel m s0 = Some res" by (rule solveLoop_terminates)
next
  assume a: "solveLoop fuel1 m s = Some r1 \<and> solveLoop fuel2 m s = Some r2"
  then have "solveLoop (fuel1 + fuel2) m s = Some r1" "solveLoop (fuel2 + fuel1) m s = Some r2"
    using solveLoop_more_fuel by blast+
  then show "r1 = r2" by (simp add: add.commute)
next
  assume "tryValues m stk nn r c 1 = (True, stk', nn')"
  from tryValues_cases [OF this]
  show "\<exists>v. 1 \<le> v \<and> v \<le> m \<and> nn' = updateNode nn r c v
            \<and> moves nn ! nat (v - 1) = 1 \<and> \<not> checkDuplicates nn v r c
            \<and> (\<forall>w. 1 \<le> w \<and> w < v \<longrightarrow>
                   \<not> (moves nn ! nat (w - 1) = 1 \<and> \<not> checkDuplicates nn w r c))"
    by blast
qed

theorem solver_deterministic_witness:
  "\<exists>node s0 r1 r2 stk' nn'.
     readLatinNode 2 [[0, 0], [0, -1]] = Some node
     \<and> solverEntry (initialStack node) = Some (2, s0)
     \<and> (\<exists>fuel res. solveLoop fuel 2 s0 = Some res)
     \<and> solveLoop 3 2 s0 = Some r1 \<and> solveLoop 5 2 s0 = Some r2 \<and> r1 = r2
     \<and> tryValues 2 initStack node 0 0 1 = (True, stk', nn')
     \<and> (\<exists>v. 1 \<le> v \<and> v \<le> 2 \<and> nn' = updateNode node 0 0 v
            \<and> moves node ! nat (v - 1) = 1 \<and> \<not> checkDuplicates node v 0 0
            \<and> (\<forall>w. 1 \<le> w \<and> w < v \<longrightarrow>
                   \<not> (moves node ! nat (w - 1) = 1 \<and> \<not> checkDuplicates node w 0 0)))"
proof -
  let ?node = "the (readLatinNode 2 [[0, 0], [0, -1]])"
  let ?ent = "snd (the (solverEntry (initialStack ?node)))"
  let ?a = "the (solveLoop 3 2 ?ent)"
  let ?b = "the (solveLoop 5 2 ?ent)"
  let ?tv = "tryValues 2 initStack ?node 0 0 1"
  have h1: "readLatinNode 2 [[0, 0], [0, -1]] = Some ?node" by code_simp
  have h2: "solverEntry (initialStack ?node) = Some (2, ?ent)" by code_simp
  have h3: "solveLoop 3 2 ?ent = Some ?a" by code_simp
  have h4: "solveLoop 5 2 ?ent = Some ?b" by code_simp
  have h5: "?tv = (True, fst (snd ?tv), snd (snd ?tv))" by code_simp
  note inst = solver_deterministic [OF h1 h2, where ?fuel1.0 = 3 and s = ?ent and ?r1.0 = ?a
      and ?fuel2.0 = 5 and ?r2.0 = ?b and stk = initStack and nn = ?node and r = 0 and c = 0
      and stk' = "fst (snd ?tv)" and nn' = "snd (snd ?tv)"]
  have c1: "\<exists>fuel res. solveLoop fuel 2 ?ent = Some res" using inst by (rule conjunct1)
  have c2: "?a = ?b" using inst h3 h4 by blast
  have c3: "\<exists>v. 1 \<le> v \<and> v \<le> 2 \<and> snd (snd ?tv) = updateNode ?node 0 0 v
            \<and> moves ?node ! nat (v - 1) = 1 \<and> \<not> checkDuplicates ?node v 0 0
            \<and> (\<forall>w. 1 \<le> w \<and> w < v \<longrightarrow>
                   \<not> (moves ?node ! nat (w - 1) = 1 \<and> \<not> checkDuplicates ?node w 0 0))"
    using inst h5 by blast
  show ?thesis
    by (rule exI [of _ ?node], rule exI [of _ ?ent], rule exI [of _ ?a], rule exI [of _ ?b],
        rule exI [of _ "fst (snd ?tv)"], rule exI [of _ "snd (snd ?tv)"], intro conjI)
       (rule h1 h2 h3 h4 h5 c1 c2 c3)+
qed

subsection \<open>C6: the scan of findNextEmptyCell\<close>

text \<open>
  C6. For every node, \<^verbatim>\<open>findNextEmptyCell\<close> returns what the row-major scan from
  \<open>(lastRow, lastCol)\<close> with the column reset to \<open>0\<close> on every later row finds: success
  and the coordinates of the first empty cell in that order, or the failure code with
  \<open>row = col = -1\<close> when there is none.
\<close>

theorem findNextEmptyCell_row_major:
  "findNextEmptyCell node = firstEmptyCell node"
  unfolding findNextEmptyCell_def firstEmptyCell_def by (rule scanRows_find)

text \<open>With the cursor at \<open>(0, 1)\<close> the empty cell \<open>(0, 0)\<close> is not looked at.\<close>

theorem findNextEmptyCell_row_major_witness:
  "findNextEmptyCell \<lparr>square = [[0, 2], [0, 0]], size_n = 2, row = 0, col = 1, moves = [1, 1]\<rparr>
     = (EXIT_SUCCESS, 1, 0)
   \<and> firstEmptyCell \<lparr>square = [[0, 2], [0, 0]], size_n = 2, row = 0, col = 1, moves = [1, 1]\<rparr>
     = (EXIT_SUCCESS, 1, 0)
   \<and> firstEmptyCell \<lparr>square = [[0, 2], [1, 2]], size_n = 2, row = 0, col = 1, moves = [1, 1]\<rparr>
     = (EXIT_FAILURE, -1, -1)"
proof -
  have a: "findNextEmptyCell
      \<lparr>square = [[0, 2], [0, 0]], size_n = 2, row = 0, col = 1, moves = [1, 1]\<rparr>
     = (EXIT_SUCCESS, 1, 0)" by code_simp
  have b: "findNextEmptyCell
      \<lparr>square = [[0, 2], [1, 2]], size_n = 2, row = 0, col = 1, moves = [1, 1]\<rparr>
     = (EXIT_FAILURE, -1, -1)" by code_simp
  show ?thesis
    using a b
      findNextEmptyCell_row_major
        [of "\<lparr>square = [[0, 2], [0, 0]], size_n = 2, row = 0, col = 1, moves = [1, 1]\<rparr>"]
      findNextEmptyCell_row_major
        [of "\<lparr>square = [[0, 2], [1, 2]], size_n = 2, row = 0, col = 1, moves = [1, 1]\<rparr>"]
    by simp
qed

subsection \<open>C7: a grid without an empty cell needs no search step\<close>

text \<open>
  C7. For a grid the file reader accepts that has no empty cell, the solver's loop
  ends in the solved state without running a single iteration: the stack is still the
  one-frame stack the caller built, both counters are \<open>0\<close> and the step counter is at
  its initial value \<open>1\<close>.
\<close>

theorem full_grid_zero_steps:
  assumes "readLatinNode n grid = Some node" and "emptyCells grid = 0"
  shows "\<exists>s0. solverEntry (initialStack node) = Some (n, s0)
           \<and> solveLoop 0 n s0 = Some (True, s0)
           \<and> stack s0 = initialStack node \<and> top_s (stack s0) = [node]
           \<and> pushCounter s0 = 0 \<and> popCounter s0 = 0 \<and> stepCounter s0 = 1"
proof -
  from readLatinNode_frame_ok [OF assms(1)] have "wf_node n node"
    unfolding frame_ok_def by simp
  then have "initialStack node = \<lparr>top_s = [node], size_s = 1\<rparr>"
    unfolding initialStack_def push_def initStack_def using cloneNode_wf
    by (simp add: Let_def)
  then show ?thesis using full_grid_entry [OF assms] by simp
qed

theorem full_grid_zero_steps_witness:
  "readLatinNode 2 [[1, 2], [2, 1]]
     = Some \<lparr>square = [[1, 2], [2, 1]], size_n = 2, row = 0, col = 0, moves = [1, 1]\<rparr>
   \<and> emptyCells [[1, 2], [2, 1]] = 0
   \<and> (\<exists>s0. solverEntry
               (initialStack
                  \<lparr>square = [[1, 2], [2, 1]], size_n = 2, row = 0, col = 0, moves = [1, 1]\<rparr>)
             = Some (2, s0)
           \<and> solveLoop 0 2 s0 = Some (True, s0)
           \<and> stack s0
               = initialStack
                   \<lparr>square = [[1, 2], [2, 1]], size_n = 2, row = 0, col = 0, moves = [1, 1]\<rparr>
           \<and> top_s (stack s0)
               = [\<lparr>square = [[1, 2], [2, 1]], size_n = 2, row = 0, col = 0, moves = [1, 1]\<rparr>]
           \<and> pushCounter s0 = 0 \<and> popCounter s0 = 0 \<and> stepCounter s0 = 1)"
proof -
  have h1: "readLatinNode 2 [[1, 2], [2, 1]]
     = Some \<lparr>square = [[1, 2], [2, 1]], size_n = 2, row = 0, col = 0, moves = [1, 1]\<rparr>"
    by code_simp
  have h2: "emptyCells [[1, 2], [2, 1]] = 0" by code_simp
  note r = full_grid_zero_steps [OF h1 h2]
  show ?thesis by (intro conjI) (rule h1 h2 r)+
qed

subsection \<open>C8: pop\<close>

text \<open>
  C8. On a stack whose size is \<open>0\<close>, \<^verbatim>\<open>pop\<close> returns the failure code, writes nothing
  through \<^verbatim>\<open>retNode\<close> and leaves the stack as it was. On a stack that is not empty, with
  top frame \<open>t\<close>, it returns the success code; the stack afterwards is the chain below
  \<open>t\<close>, unchanged, with the size one less; and the node written through \<^verbatim>\<open>retNode\<close> has
  the cursor and the size of \<open>t\<close> and a copy of its \<open>size \<times> size\<close> cells and of its
  \<open>size\<close> \<^verbatim>\<open>moves\<close> flags: for a well-formed \<open>t\<close> it is equal to \<open>t\<close>.
\<close>

theorem pop_empty_or_top:
  "(isEmpty stk \<longrightarrow> pop stk = Some (EXIT_FAILURE, stk, None))
   \<and> (\<not> isEmpty stk \<and> top_s stk = t # rest \<longrightarrow>
        (\<exists>rn. pop stk = Some (EXIT_SUCCESS, stk\<lparr>top_s := rest, size_s := size_s stk - 1\<rparr>, Some rn)
           \<and> row rn = row t \<and> col rn = col t \<and> size_n rn = size_n t
           \<and> (\<forall>i j. inGrid (size_n t) i j \<longrightarrow> cell rn i j = cell t i j)
           \<and> (\<forall>i. 0 \<le> i \<and> i < size_n t \<longrightarrow> moves rn ! nat i = moves t ! nat i)
           \<and> (wf_node (size_n t) t \<longrightarrow> rn = t)))"
proof
  show "isEmpty stk \<longrightarrow> pop stk = Some (EXIT_FAILURE, stk, None)"
    unfolding pop_def by simp
next
  show "\<not> isEmpty stk \<and> top_s stk = t # rest \<longrightarrow>
        (\<exists>rn. pop stk = Some (EXIT_SUCCESS, stk\<lparr>top_s := rest, size_s := size_s stk - 1\<rparr>, Some rn)
           \<and> row rn = row t \<and> col rn = col t \<and> size_n rn = size_n t
           \<and> (\<forall>i j. inGrid (size_n t) i j \<longrightarrow> cell rn i j = cell t i j)
           \<and> (\<forall>i. 0 \<le> i \<and> i < size_n t \<longrightarrow> moves rn ! nat i = moves t ! nat i)
           \<and> (wf_node (size_n t) t \<longrightarrow> rn = t))"
  proof
    assume a: "\<not> isEmpty stk \<and> top_s stk = t # rest"
    have p: "pop stk = Some (EXIT_SUCCESS, stk\<lparr>top_s := rest, size_s := size_s stk - 1\<rparr>,
                Some (cloneNode t))"
      unfolding pop_def cloneNode_def using a by simp
    have "\<forall>i j. inGrid (size_n t) i j \<longrightarrow> cell (cloneNode t) i j = cell t i j"
      unfolding inGrid_def cell_def cloneNode_def by auto
    moreover have "\<forall>i. 0 \<le> i \<and> i < size_n t \<longrightarrow> moves (cloneNode t) ! nat i = moves t ! nat i"
      unfolding cloneNode_def by auto
    moreover have "row (cloneNode t) = row t \<and> col (cloneNode t) = col t
        \<and> size_n (cloneNode t) = size_n t"
      unfolding cloneNode_def by simp
    moreover have "wf_node (size_n t) t \<longrightarrow> cloneNode t = t" using cloneNode_wf by blast
    ultimately show "\<exists>rn. pop stk
             = Some (EXIT_SUCCESS, stk\<lparr>top_s := rest, size_s := size_s stk - 1\<rparr>, Some rn)
           \<and> row rn = row t \<and> col rn = col t \<and> size_n rn = size_n t
           \<and> (\<forall>i j. inGrid (size_n t) i j \<longrightarrow> cell rn i j = cell t i j)
           \<and> (\<forall>i. 0 \<le> i \<and> i < size_n t \<longrightarrow> moves rn ! nat i = moves t ! nat i)
           \<and> (wf_node (size_n t) t \<longrightarrow> rn = t)"
      using p by blast
  qed
qed

theorem pop_empty_or_top_witness:
  "isEmpty initStack
   \<and> pop initStack = Some (EXIT_FAILURE, initStack, None)
   \<and> \<not> isEmpty \<lparr>top_s = [\<lparr>square = [[1, 0], [0, -1]], size_n = 2, row = 0, col = 0,
                              moves = [1, 0]\<rparr>], size_s = 1\<rparr>
   \<and> wf_node 2 \<lparr>square = [[1, 0], [0, -1]], size_n = 2, row = 0, col = 0, moves = [1, 0]\<rparr>
   \<and> pop \<lparr>top_s = [\<lparr>square = [[1, 0], [0, -1]], size_n = 2, row = 0, col = 0,
                       moves = [1, 0]\<rparr>], size_s = 1\<rparr>
       = Some (EXIT_SUCCESS, \<lparr>top_s = [], size_s = 0\<rparr>,
               Some \<lparr>square = [[1, 0], [0, -1]], size_n = 2, row = 0, col = 0, moves = [1, 0]\<rparr>)"
proof -
  let ?t = "\<lparr>square = [[1, 0], [0, -1]], size_n = 2, row = 0, col = 0, moves = [1, 0]\<rparr>"
  let ?stk = "\<lparr>top_s = [?t], size_s = 1\<rparr>"
  have e: "isEmpty initStack" by code_simp
  have ne: "\<not> isEmpty ?stk" by code_simp
  have wf: "wf_node 2 ?t" by code_simp
  have tp: "top_s ?stk = ?t # []" by simp
  have sz: "size_n ?t = 2" by simp
  have a: "pop initStack = Some (EXIT_FAILURE, initStack, None)"
    using pop_empty_or_top [of initStack] e by blast
  from pop_empty_or_top [of ?stk ?t "[]"] ne tp obtain rn where
    rn: "pop ?stk = Some (EXIT_SUCCESS, ?stk\<lparr>top_s := [], size_s := size_s ?stk - 1\<rparr>, Some rn)"
      "wf_node (size_n ?t) ?t \<longrightarrow> rn = ?t"
    by blast
  have "rn = ?t" using rn(2) wf sz by simp
  then have b: "pop ?stk = Some (EXIT_SUCCESS, \<lparr>top_s = [], size_s = 0\<rparr>, Some ?t)"
    using rn(1) by simp
  show ?thesis by (intro conjI) (rule e a ne wf b)+
qed

subsection \<open>C9: filled cells of the input are not validated\<close>

text \<open>
  C9. For a grid the file reader accepts that has no empty cell, whatever values it
  holds, \<^verbatim>\<open>solveLatinSquare\<close> returns true with both counters at \<open>0\<close>.
\<close>

theorem full_grid_solved_unchecked:
  assumes "readLatinNode n grid = Some node" and "emptyCells grid = 0"
  shows "solveLatinSquare fuel (initialStack node)
           = Some \<lparr>ret = True, stack_after = None, pushNum = 0, popNum = 0\<rparr>"
proof -
  let ?s0 = "\<lparr>stack = \<lparr>top_s = [node], size_s = 1\<rparr>, newNode = node,
                       rowv = -1, colv = -1,
                       pushCounter = 0, popCounter = 0, stepCounter = 1\<rparr>"
  have "solveLoop fuel n ?s0 = Some (True, ?s0)" by (cases fuel) simp_all
  from solveLatinSquare_result [OF full_grid_entry [OF assms] this] show ?thesis by simp
qed

text \<open>The grid \<open>[[1, 1], [-1, 1]]\<close> repeats a magnitude in a row and in a column.\<close>

theorem full_grid_solved_unchecked_witness:
  "readLatinNode 2 [[1, 1], [-1, 1]]
     = Some \<lparr>square = [[1, 1], [-1, 1]], size_n = 2, row = 0, col = 0, moves = [1, 1]\<rparr>
   \<and> emptyCells [[1, 1], [-1, 1]] = 0
   \<and> \<not> noRepeat 2 \<lparr>square = [[1, 1], [-1, 1]], size_n = 2, row = 0, col = 0, moves = [1, 1]\<rparr>
   \<and> solveLatinSquare 7
        (initialStack \<lparr>square = [[1, 1], [-1, 1]], size_n = 2, row = 0, col = 0, moves = [1, 1]\<rparr>)
       = Some \<lparr>ret = True, stack_after = None, pushNum = 0, popNum = 0\<rparr>"
proof -
  have h1: "readLatinNode 2 [[1, 1], [-1, 1]]
     = Some \<lparr>square = [[1, 1], [-1, 1]], size_n = 2, row = 0, col = 0, moves = [1, 1]\<rparr>"
    by code_simp
  have h2: "emptyCells [[1, 1], [-1, 1]] = 0" by code_simp
  have h3: "\<not> noRepeat 2
      \<lparr>square = [[1, 1], [-1, 1]], size_n = 2, row = 0, col = 0, moves = [1, 1]\<rparr>"
    by code_simp
  note r = full_grid_solved_unchecked [OF h1 h2, of 7]
  show ?thesis by (intro conjI) (rule h1 h2 h3 r)+
qed

subsection \<open>C10: the index written on a backtrack step\<close>

text \<open>
  C10. For a grid the file reader accepts and a loop head reached during the run: when
  the value loop pushes nothing and the stack is not empty after the \<^verbatim>\<open>pop\<close>, the popped
  frame's cell \<open>(row, col)\<close> holds a value \<open>v\<close> with \<open>1 \<le> v \<le> N\<close>, and the new top frame
  has \<open>N\<close> \<^verbatim>\<open>moves\<close> flags, so that the write to \<^verbatim>\<open>moves[v - 1]\<close> is within bounds.
\<close>

theorem backtrack_index_in_bounds:
  assumes "readLatinNode n grid = Some node"
    and "solverEntry (initialStack node) = Some (m, s0)"
    and "runSteps k m s0 = Some s"
    and "rowv s \<noteq> -1 \<and> colv s \<noteq> -1"
    and "tryValues m (stack s) (newNode s) (rowv s) (colv s) 1 = (False, stk1, nn1)"
    and "pop stk1 = Some (st, stk2, retNode)"
    and "\<not> isEmpty stk2"
  shows "\<exists>rn t rest. retNode = Some rn \<and> top_s stk2 = t # rest
           \<and> 1 \<le> cell rn (row rn) (col rn) \<and> cell rn (row rn) (col rn) \<le> n
           \<and> 0 \<le> cell rn (row rn) (col rn) - 1
           \<and> nat (cell rn (row rn) (col rn) - 1) < length (moves t)
           \<and> length (moves t) = nat n"
proof -
  from entry_inv [OF assms(1,2)] have m: "m = n" and inv0: "solver_inv n node s0" by auto
  from runSteps_inv [OF inv0] assms(3) m have inv: "solver_inv n node s" by blast
  from tryValues_cases [OF assms(5)] have same: "stk1 = stack s" by auto
  from loopBody_pop [OF inv] assms(5) m
  consider f where "top_s (stack s) = [f]"
    | f b rest where "top_s (stack s) = f # b # rest"
        "pop (stack s) = Some (EXIT_SUCCESS,
                    (stack s)\<lparr>top_s := b # rest, size_s := size_s (stack s) - 1\<rparr>, Some f)"
        "1 \<le> cell f (row f) (col f)" "cell f (row f) (col f) \<le> n"
        "nat (cell f (row f) (col f) - 1) < length (moves b)"
    by blast
  then show ?thesis
  proof cases
    case 1
    have ok: "frame_ok n node f" using inv 1 unfolding solver_inv_def by simp
    then have wf: "wf_node n f" unfolding frame_ok_def by simp
    have "size_s (stack s) = 1" using inv 1 unfolding solver_inv_def by simp
    then have "pop (stack s) = Some (EXIT_SUCCESS, (stack s)\<lparr>top_s := [], size_s := 0\<rparr>, Some f)"
      using pop_top [OF 1 _ wf] by simp
    then have "isEmpty stk2" using assms(6) same unfolding isEmpty_def by auto
    then show ?thesis using assms(7) by simp
  next
    case 2
    have okb: "frame_ok n node b" using inv 2(1) unfolding solver_inv_def by simp
    then have "length (moves b) = nat n" unfolding frame_ok_def wf_node_def by simp
    moreover have "retNode = Some f" "top_s stk2 = b # rest"
      using 2(2) assms(6) same by auto
    ultimately show ?thesis using 2(3,4,5) by simp
  qed
qed

theorem backtrack_index_in_bounds_witness:
  "\<exists>node s0 s stk1 nn1 st stk2 retNode.
     readLatinNode 2 [[-1, -1], [0, 0]] = Some node
     \<and> solverEntry (initialStack node) = Some (2, s0)
     \<and> runSteps 1 2 s0 = Some s
     \<and> (rowv s \<noteq> -1 \<and> colv s \<noteq> -1)
     \<and> tryValues 2 (stack s) (newNode s) (rowv s) (colv s) 1 = (False, stk1, nn1)
     \<and> pop stk1 = Some (st, stk2, retNode)
     \<and> \<not> isEmpty stk2
     \<and> (\<exists>rn t rest. retNode = Some rn \<and> top_s stk2 = t # rest
           \<and> 1 \<le> cell rn (row rn) (col rn) \<and> cell rn (row rn) (col rn) \<le> 2
           \<and> 0 \<le> cell rn (row rn) (col rn) - 1
           \<and> nat (cell rn (row rn) (col rn) - 1) < length (moves t)
           \<and> length (moves t) = nat 2)"
proof -
  let ?node = "the (readLatinNode 2 [[-1, -1], [0, 0]])"
  let ?ent = "snd (the (solverEntry (initialStack ?node)))"
  let ?mid = "the (runSteps 1 2 ?ent)"
  let ?tv = "tryValues 2 (stack ?mid) (newNode ?mid) (rowv ?mid) (colv ?mid) 1"
  let ?pp = "the (pop (fst (snd ?tv)))"
  have h1: "readLatinNode 2 [[-1, -1], [0, 0]] = Some ?node" by code_simp
  have h2: "solverEntry (initialStack ?node) = Some (2, ?ent)" by code_simp
  have h3: "runSteps 1 2 ?ent = Some ?mid" by code_simp
  have h4: "rowv ?mid \<noteq> -1 \<and> colv ?mid \<noteq> -1" by code_simp
  have h5: "?tv = (False, fst (snd ?tv), snd (snd ?tv))" by code_simp
  have h6: "pop (fst (snd ?tv)) = Some (fst ?pp, fst (snd ?pp), snd (snd ?pp))" by code_simp
  have h7: "\<not> isEmpty (fst (snd ?pp))" by code_simp
  note r = backtrack_index_in_bounds [OF h1 h2 h3 h4 h5 h6 h7]
  show ?thesis
    by (rule exI [of _ ?node], rule exI [of _ ?ent], rule exI [of _ ?mid],
        rule exI [of _ "fst (snd ?tv)"], rule exI [of _ "snd (snd ?tv)"],
        rule exI [of _ "fst ?pp"], rule exI [of _ "fst (snd ?pp)"],
        rule exI [of _ "snd (snd ?pp)"], intro conjI)
       (rule h1 h2 h3 h4 [THEN conjunct1] h4 [THEN conjunct2] h5 h6 h7 r)+
qed

end
